theory Spec2Isabelle
  imports Main
begin

section \<open>km\_diff: difference of two sorted k-mer matrices\<close>

text \<open>
  A shallow embedding of \<^verbatim>\<open>km_diff.c\<close>.  C strings are lists of bytes (\<open>string\<close>)
  that hold the characters before the terminating NUL; reading the position past the
  last character of such a list yields NUL, as dereferencing the terminator does in C.
  A file is the list of bytes not yet read from it.
\<close>

subsection \<open>Bytes and C strings\<close>

definition NUL :: char where
  "NUL = CHR 0x00"

definition NL :: char where
  "NL = CHR 0x0A"

definition TAB :: char where
  "TAB = CHR 0x09"

text \<open>\<^verbatim>\<open>*p\<close> for a pointer into a NUL-terminated string.\<close>

definition deref :: "string \<Rightarrow> char" where
  "deref p = (case p of [] \<Rightarrow> NUL | c # _ \<Rightarrow> c)"

text \<open>The value of a byte read through \<^verbatim>\<open>unsigned char\<close> and through plain (signed) \<^verbatim>\<open>char\<close>.\<close>

definition uchar :: "char \<Rightarrow> nat" where
  "uchar c = of_char c"

definition schar :: "char \<Rightarrow> int" where
  "schar c = (if uchar c < 128 then int (uchar c) else int (uchar c) - 256)"

text \<open>The characters of the buffer \<open>b\<close> seen as a C string: everything before the first NUL.\<close>

definition cstr :: "string \<Rightarrow> string" where
  "cstr b = takeWhile (\<lambda>c. c \<noteq> NUL) b"

subsection \<open>The lookup tables\<close>

text \<open>The two tables of 256 entries, sixteen entries to a row.\<close>

definition isnuc :: "int list" where
  "isnuc =
     [0, 0, 0, 0, 0, 0, 0, 0, 0, 0, 0, 0, 0, 0, 0, 0] @
     [0, 0, 0, 0, 0, 0, 0, 0, 0, 0, 0, 0, 0, 0, 0, 0] @
     [0, 0, 0, 0, 0, 0, 0, 0, 0, 0, 0, 0, 0, 0, 0, 0] @
     [0, 0, 0, 0, 0, 0, 0, 0, 0, 0, 0, 0, 0, 0, 0, 0] @
     [0, 1, 0, 1, 0, 0, 0, 1, 0, 0, 0, 0, 0, 0, 1, 0] @
     [0, 0, 0, 0, 1, 0, 0, 0, 0, 0, 0, 0, 0, 0, 0, 0] @
     [0, 1, 0, 1, 0, 0, 0, 1, 0, 0, 0, 0, 0, 0, 1, 0] @
     [0, 0, 0, 0, 1, 0, 0, 0, 0, 0, 0, 0, 0, 0, 0, 0] @
     [0, 0, 0, 0, 0, 0, 0, 0, 0, 0, 0, 0, 0, 0, 0, 0] @
     [0, 0, 0, 0, 0, 0, 0, 0, 0, 0, 0, 0, 0, 0, 0, 0] @
     [0, 0, 0, 0, 0, 0, 0, 0, 0, 0, 0, 0, 0, 0, 0, 0] @
     [0, 0, 0, 0, 0, 0, 0, 0, 0, 0, 0, 0, 0, 0, 0, 0] @
     [0, 0, 0, 0, 0, 0, 0, 0, 0, 0, 0, 0, 0, 0, 0, 0] @
     [0, 0, 0, 0, 0, 0, 0, 0, 0, 0, 0, 0, 0, 0, 0, 0] @
     [0, 0, 0, 0, 0, 0, 0, 0, 0, 0, 0, 0, 0, 0, 0, 0] @
     [0, 0, 0, 0, 0, 0, 0, 0, 0, 0, 0, 0, 0, 0, 0, 0]"

definition n2kt :: "int list" where
  "n2kt =
     [1, 1, 1, 1, 1, 1, 1, 1, 1, 1, 1, 1, 1, 1, 1, 1] @
     [1, 1, 1, 1, 1, 1, 1, 1, 1, 1, 1, 1, 1, 1, 1, 1] @
     [1, 1, 1, 1, 1, 1, 1, 1, 1, 1, 1, 1, 1, 1, 1, 1] @
     [1, 1, 1, 1, 1, 1, 1, 1, 1, 1, 1, 1, 1, 1, 1, 1] @
     [1, 0, 1, 1, 1, 1, 1, 3, 1, 1, 1, 1, 1, 1, 1, 1] @
     [1, 1, 1, 1, 2, 1, 1, 1, 1, 1, 1, 1, 1, 1, 1, 1] @
     [1, 0, 1, 1, 1, 1, 1, 3, 1, 1, 1, 1, 1, 1, 1, 1] @
     [1, 1, 1, 1, 2, 1, 1, 1, 1, 1, 1, 1, 1, 1, 1, 1] @
     [1, 1, 1, 1, 1, 1, 1, 1, 1, 1, 1, 1, 1, 1, 1, 1] @
     [1, 1, 1, 1, 1, 1, 1, 1, 1, 1, 1, 1, 1, 1, 1, 1] @
     [1, 1, 1, 1, 1, 1, 1, 1, 1, 1, 1, 1, 1, 1, 1, 1] @
     [1, 1, 1, 1, 1, 1, 1, 1, 1, 1, 1, 1, 1, 1, 1, 1] @
     [1, 1, 1, 1, 1, 1, 1, 1, 1, 1, 1, 1, 1, 1, 1, 1] @
     [1, 1, 1, 1, 1, 1, 1, 1, 1, 1, 1, 1, 1, 1, 1, 1] @
     [1, 1, 1, 1, 1, 1, 1, 1, 1, 1, 1, 1, 1, 1, 1, 1] @
     [1, 1, 1, 1, 1, 1, 1, 1, 1, 1, 1, 1, 1, 1, 1, 1]"

text \<open>
  \<^verbatim>\<open>isnuc[(int)(*line)[i]]\<close>: the index is the byte as a plain \<^verbatim>\<open>char\<close>.  Where plain
  \<^verbatim>\<open>char\<close> is signed, a byte above 127 gives a negative index, a read before the
  table; the model returns \<open>None\<close> there and fixes no value.
\<close>

definition isnuc_at :: "char \<Rightarrow> int option" where
  "isnuc_at c = (if schar c < 0 then None else Some (isnuc ! nat (schar c)))"

text \<open>\<^verbatim>\<open>n2kt[*(const unsigned char *)k]\<close>: always inside the 256 entries.\<close>

definition n2kt_at :: "char \<Rightarrow> int" where
  "n2kt_at c = n2kt ! uchar c"

subsection \<open>The two comparators\<close>

function ktcmp :: "string \<Rightarrow> string \<Rightarrow> int" where
  "ktcmp k1 k2 =
     (if deref k1 \<noteq> NUL \<and> deref k1 = deref k2 then ktcmp (tl k1) (tl k2)
      else n2kt_at (deref k1) - n2kt_at (deref k2))"
  by pat_completeness auto
termination
  by (relation "measure (\<lambda>(k1, k2). length k1)") (auto simp: deref_def split: list.splits)

text \<open>
  \<^verbatim>\<open>strcmp\<close> of the C library: the sign of the result is that of the difference of the
  first two bytes that differ, compared as \<^verbatim>\<open>unsigned char\<close>; the model returns that
  difference, and the caller looks at the sign only.
\<close>

function strcmp :: "string \<Rightarrow> string \<Rightarrow> int" where
  "strcmp s1 s2 =
     (if deref s1 \<noteq> NUL \<and> deref s1 = deref s2 then strcmp (tl s1) (tl s2)
      else int (uchar (deref s1)) - int (uchar (deref s2)))"
  by pat_completeness auto
termination
  by (relation "measure (\<lambda>(s1, s2). length s1)") (auto simp: deref_def split: list.splits)

declare ktcmp.simps [simp del] strcmp.simps [simp del]

subsection \<open>The record reader\<close>

text \<open>
  \<^verbatim>\<open>getline\<close> of the C library on the unread bytes of a file: \<open>None\<close> is the return
  value \<open>-1\<close> at end of file; otherwise the bytes up to and including the first newline
  (or up to the end of the file) and the bytes left unread.  The value returned by the C
  function is the length of the first component.
\<close>

definition getline :: "string \<Rightarrow> (string \<times> string) option" where
  "getline f =
     (if f = [] then None
      else (case dropWhile (\<lambda>c. c \<noteq> NL) f of
              [] \<Rightarrow> Some (f, [])
            | c # rest \<Rightarrow> Some (takeWhile (\<lambda>c. c \<noteq> NL) f @ [c], rest)))"

text \<open>
  The variables of one input matrix: the key buffer \<^verbatim>\<open>kmer_i\<close> and the line buffer
  \<^verbatim>\<open>line_i\<close>, both as C strings, and the unread bytes of \<^verbatim>\<open>mat_i\<close>.
\<close>

record matrix =
  kmer :: string
  line :: string
  mat :: string

text \<open>
  The \<^verbatim>\<open>for\<close> loop of \<^verbatim>\<open>next_kmer_and_line\<close> over the first \<^verbatim>\<open>ksize\<close> bytes of the line;
  the second argument is the part of the key buffer written so far.
\<close>

datatype copied = Out_of_table | Not_nuc string | Copied string

fun copy_kmer :: "string \<Rightarrow> string \<Rightarrow> copied" where
  "copy_kmer [] written = Copied written"
| "copy_kmer (c # cs) written =
     (case isnuc_at c of
        None \<Rightarrow> Out_of_table
      | Some v \<Rightarrow> if v = 0 then Not_nuc written else copy_kmer cs (written @ [c]))"

definition warning :: string where
  "warning = ''[warning] input does not seem valid'' @ [NL]"

text \<open>\<^verbatim>\<open>if(len > 0 && (*line)[len-1]=='\n') (*line)[len-1] = '\0';\<close> on a C string.\<close>

definition chomp :: "string \<Rightarrow> string" where
  "chomp l = (if length l > 0 \<and> l ! (length l - 1) = NL then take (length l - 1) l else l)"

text \<open>
  The result is the returned flag, the variables after the call and the text written to
  the standard error stream; \<open>None\<close> when the table is read out of bounds.  After a
  successful copy the key buffer holds exactly the \<^verbatim>\<open>ksize\<close> copied bytes: its last byte
  is the zero of \<^verbatim>\<open>calloc\<close>, which is never written.  At the end of the file
  \<^verbatim>\<open>getline\<close> returns \<open>-1\<close>, which is below every \<^verbatim>\<open>ksize\<close> that \<^verbatim>\<open>main\<close> passes; with a
  negative \<^verbatim>\<open>ksize\<close> the function would go on to \<^verbatim>\<open>strlen\<close> of a line buffer that
  \<^verbatim>\<open>getline\<close> has not filled, and the model fixes no result.
\<close>

definition next_kmer_and_line :: "int \<Rightarrow> matrix \<Rightarrow> (bool \<times> matrix \<times> string) option" where
  "next_kmer_and_line ksize m =
     (case getline (mat m) of
        None \<Rightarrow> if - 1 < ksize then Some (False, m, []) else None
      | Some (l, rest) \<Rightarrow>
          if int (length l) < ksize then Some (False, m\<lparr>line := cstr l, mat := rest\<rparr>, [])
          else (case copy_kmer (take (nat ksize) l) [] of
                  Out_of_table \<Rightarrow> None
                | Not_nuc w \<Rightarrow>
                    Some (False,
                          m\<lparr>kmer := w @ drop (length w) (kmer m), line := cstr l, mat := rest\<rparr>,
                          warning)
                | Copied w \<Rightarrow>
                    Some (True, m\<lparr>kmer := w, line := chomp (cstr l), mat := rest\<rparr>, [])))"

subsection \<open>Counting sample columns and skipping the key column\<close>

definition is_delim :: "char \<Rightarrow> bool" where
  "is_delim c = (c = CHR '' '' \<or> c = TAB \<or> c = NL)"

text \<open>The tokens that successive calls of \<^verbatim>\<open>strtok(_, " \t\n")\<close> return.\<close>

function strtok_all :: "string \<Rightarrow> string list" where
  "strtok_all s =
     (case dropWhile is_delim s of
        [] \<Rightarrow> []
      | c # cs \<Rightarrow> (c # takeWhile (\<lambda>x. \<not> is_delim x) cs) # strtok_all (dropWhile (\<lambda>x. \<not> is_delim x) cs))"
  by pat_completeness auto
termination
proof (relation "measure length", goal_cases)
  case 1
  show ?case by simp
next
  case (2 s c cs)
  have "length (dropWhile (\<lambda>x. \<not> is_delim x) cs) \<le> length cs"
    by (rule length_dropWhile_le)
  moreover have "length (c # cs) \<le> length s"
    using length_dropWhile_le [of is_delim s] 2 by simp
  ultimately show ?case by simp
qed

declare strtok_all.simps [simp del]

fun count_tokens :: "string list \<Rightarrow> bool \<Rightarrow> nat \<Rightarrow> nat" where
  "count_tokens [] first n_samples = n_samples"
| "count_tokens (tok # toks) first n_samples =
     count_tokens toks False (n_samples + (if first then 0 else 1))"

definition samples_number :: "string \<Rightarrow> nat" where
  "samples_number l = count_tokens (strtok_all l) True 0"

definition first_column :: "string \<Rightarrow> string" where
  "first_column l =
     dropWhile (\<lambda>c. c \<noteq> NUL \<and> (c = CHR '' '' \<or> c = TAB))
       (dropWhile (\<lambda>c. c \<noteq> NUL \<and> c \<noteq> CHR '' '' \<and> c \<noteq> TAB) l)"

subsection \<open>The merge driver\<close>

text \<open>
  The variables of \<^verbatim>\<open>main\<close> that the two loops read and write, with the text written so
  far to the output file and to the standard error stream.
\<close>

record vars =
  matrix_1 :: matrix
  has_kmer_1 :: bool
  matrix_2 :: matrix
  has_kmer_2 :: bool
  outfile :: string
  errfile :: string

text \<open>\<^verbatim>\<open>has_kmer_i = next_kmer_and_line(kmer_i, ksize, &line_i, &line_i_size, mat_i)\<close>.\<close>

definition read_1 :: "int \<Rightarrow> vars \<Rightarrow> vars option" where
  "read_1 ksize v =
     (case next_kmer_and_line ksize (matrix_1 v) of
        None \<Rightarrow> None
      | Some (h, m, e) \<Rightarrow> Some (v\<lparr>matrix_1 := m, has_kmer_1 := h, errfile := errfile v @ e\<rparr>))"

definition read_2 :: "int \<Rightarrow> vars \<Rightarrow> vars option" where
  "read_2 ksize v =
     (case next_kmer_and_line ksize (matrix_2 v) of
        None \<Rightarrow> None
      | Some (h, m, e) \<Rightarrow> Some (v\<lparr>matrix_2 := m, has_kmer_2 := h, errfile := errfile v @ e\<rparr>))"

text \<open>\<^verbatim>\<open>fputs(s,outfile)\<close>; \<^verbatim>\<open>fputc(c,outfile)\<close> is \<open>fputs [c]\<close>.\<close>

definition fputs :: "string \<Rightarrow> vars \<Rightarrow> vars" where
  "fputs s v = v\<lparr>outfile := outfile v @ s\<rparr>"

text \<open>
  The conditional expression \<^verbatim>\<open>use_ktcmp ? ktcmp(kmer_1,kmer_2) : strcmp(kmer_1,kmer_2)\<close>.
\<close>

definition key_cmp :: "bool \<Rightarrow> string \<Rightarrow> string \<Rightarrow> int" where
  "key_cmp use_ktcmp k1 k2 = (if use_ktcmp then ktcmp k1 k2 else strcmp k1 k2)"

text \<open>One iteration of \<^verbatim>\<open>while(has_kmer_1 && has_kmer_2)\<close>.\<close>

definition merging_step :: "bool \<Rightarrow> int \<Rightarrow> vars \<Rightarrow> vars option" where
  "merging_step use_ktcmp ksize v =
     (let ret_cmp = key_cmp use_ktcmp (kmer (matrix_1 v)) (kmer (matrix_2 v))
      in if ret_cmp = 0 then
           (case read_1 ksize v of
              None \<Rightarrow> None
            | Some v1 \<Rightarrow>
                (case read_2 ksize v1 of
                   None \<Rightarrow> None
                 | Some v2 \<Rightarrow> Some (fputs [NL] v2)))
         else if ret_cmp < 0 then
           (case read_1 ksize (fputs (line (matrix_1 v)) v) of
              None \<Rightarrow> None
            | Some v1 \<Rightarrow> Some (fputs [NL] v1))
         else
           (case read_2 ksize v of
              None \<Rightarrow> None
            | Some v2 \<Rightarrow> Some (fputs [NL] v2)))"

text \<open>The \<^verbatim>\<open>for\<close> loop writing \<^verbatim>\<open>n_sample_2\<close> times \<^verbatim>\<open>" 0"\<close>.\<close>

fun fputs_zeros :: "nat \<Rightarrow> vars \<Rightarrow> vars" where
  "fputs_zeros 0 v = v"
| "fputs_zeros (Suc n) v = fputs_zeros n (fputs '' 0'' v)"

text \<open>One iteration of \<^verbatim>\<open>while(has_kmer_1)\<close>.\<close>

definition draining_step :: "int \<Rightarrow> nat \<Rightarrow> vars \<Rightarrow> vars option" where
  "draining_step ksize n_sample_2 v =
     (let v = fputs (kmer (matrix_1 v)) v;
          v = fputs '' '' v;
          v = fputs (first_column (line (matrix_1 v))) v;
          v = fputs_zeros n_sample_2 v;
          v = fputs [NL] v
      in read_1 ksize v)"

text \<open>
  Every call of the reader that returns a record has consumed at least one byte of its
  file, and a call that returns none clears the flag of its matrix: the sum below
  decreases in each iteration of either loop.
\<close>

definition unread :: "vars \<Rightarrow> nat" where
  "unread v = length (mat (matrix_1 v)) + length (mat (matrix_2 v))
                + (if has_kmer_1 v then 1 else 0) + (if has_kmer_2 v then 1 else 0)"

lemma getline_shorter: "getline f = Some (l, rest) \<Longrightarrow> length rest < length f"
proof -
  assume g: "getline f = Some (l, rest)"
  have le: "length (dropWhile (\<lambda>c. c \<noteq> NL) f) \<le> length f"
    by (rule length_dropWhile_le)
  from g le show ?thesis
    by (auto simp: getline_def split: if_splits list.splits)
qed

lemma next_kmer_and_line_unread:
  assumes "next_kmer_and_line ksize m = Some (h, m', e)"
  shows "length (mat m') + (if h then 1 else 0) \<le> length (mat m)"
proof (cases "getline (mat m)")
  case None
  with assms show ?thesis by (simp add: next_kmer_and_line_def split: if_splits)
next
  case (Some p)
  obtain l rest where p: "p = (l, rest)" by (cases p)
  from Some p have "length rest < length (mat m)" by (simp add: getline_shorter)
  with assms Some p show ?thesis
    by (auto simp: next_kmer_and_line_def split: if_splits copied.splits)
qed

lemma unread_fputs [simp]: "unread (fputs s v) = unread v"
  by (simp add: unread_def fputs_def)

lemma unread_fputs_zeros [simp]: "unread (fputs_zeros n v) = unread v"
  by (induction n arbitrary: v) simp_all

lemma has_kmer_fputs [simp]:
  "has_kmer_1 (fputs s v) = has_kmer_1 v" "has_kmer_2 (fputs s v) = has_kmer_2 v"
  by (simp_all add: fputs_def)

lemma has_kmer_fputs_zeros [simp]:
  "has_kmer_1 (fputs_zeros n v) = has_kmer_1 v" "has_kmer_2 (fputs_zeros n v) = has_kmer_2 v"
  by (induction n arbitrary: v) simp_all

lemma read_1_unread:
  assumes "read_1 ksize v = Some v'" "has_kmer_1 v"
  shows "unread v' < unread v" "has_kmer_2 v' = has_kmer_2 v"
proof -
  from assms(1) obtain h m e where n: "next_kmer_and_line ksize (matrix_1 v) = Some (h, m, e)"
    and v': "v' = v\<lparr>matrix_1 := m, has_kmer_1 := h, errfile := errfile v @ e\<rparr>"
    by (auto simp: read_1_def split: option.splits)
  from next_kmer_and_line_unread [OF n] assms(2) v'
  show "unread v' < unread v" by (simp add: unread_def)
  from v' show "has_kmer_2 v' = has_kmer_2 v" by simp
qed

lemma read_2_unread:
  assumes "read_2 ksize v = Some v'" "has_kmer_2 v"
  shows "unread v' < unread v"
proof -
  from assms(1) obtain h m e where n: "next_kmer_and_line ksize (matrix_2 v) = Some (h, m, e)"
    and v': "v' = v\<lparr>matrix_2 := m, has_kmer_2 := h, errfile := errfile v @ e\<rparr>"
    by (auto simp: read_2_def split: option.splits)
  from next_kmer_and_line_unread [OF n] assms(2) v'
  show "unread v' < unread v" by (simp add: unread_def)
qed

lemma merging_step_unread:
  assumes "has_kmer_1 v" "has_kmer_2 v" "merging_step z ksize v = Some v'"
  shows "unread v' < unread v"
proof -
  define r where "r = key_cmp z (kmer (matrix_1 v)) (kmer (matrix_2 v))"
  consider "r = 0" | "r < 0" | "r > 0" by linarith
  then show ?thesis
  proof cases
    case 1
    with assms(3) obtain v1 v2 where a: "read_1 ksize v = Some v1" and b: "read_2 ksize v1 = Some v2"
      and c: "v' = fputs [NL] v2"
      by (auto simp: merging_step_def r_def Let_def split: option.splits)
    from read_1_unread [OF a assms(1)] assms(2) have "unread v1 < unread v" "has_kmer_2 v1" by simp_all
    with read_2_unread [OF b] c show ?thesis by simp
  next
    case 2
    with assms(3) obtain v1 where a: "read_1 ksize (fputs (line (matrix_1 v)) v) = Some v1"
      and c: "v' = fputs [NL] v1"
      by (auto simp: merging_step_def r_def Let_def split: option.splits)
    from read_1_unread(1) [OF a] assms(1) c show ?thesis by simp
  next
    case 3
    with assms(3) obtain v2 where a: "read_2 ksize v = Some v2"
      and c: "v' = fputs [NL] v2"
      by (auto simp: merging_step_def r_def Let_def split: option.splits)
    from read_2_unread [OF a] assms(2) c show ?thesis by simp
  qed
qed

lemma draining_step_unread:
  assumes "has_kmer_1 v" "draining_step ksize n v = Some v'"
  shows "unread v' < unread v"
  using read_1_unread(1) [OF assms(2) [unfolded draining_step_def Let_def]] assms(1) by simp

function merging :: "bool \<Rightarrow> int \<Rightarrow> vars \<Rightarrow> vars option" where
  "merging use_ktcmp ksize v =
     (if has_kmer_1 v \<and> has_kmer_2 v then
        (case merging_step use_ktcmp ksize v of
           None \<Rightarrow> None
         | Some v' \<Rightarrow> merging use_ktcmp ksize v')
      else Some v)"
  by pat_completeness auto
termination
  by (relation "measure (\<lambda>(z, k, v). unread v)") (auto intro: merging_step_unread)

function draining :: "int \<Rightarrow> nat \<Rightarrow> vars \<Rightarrow> vars option" where
  "draining ksize n_sample_2 v =
     (if has_kmer_1 v then
        (case draining_step ksize n_sample_2 v of
           None \<Rightarrow> None
         | Some v' \<Rightarrow> draining ksize n_sample_2 v')
      else Some v)"
  by pat_completeness auto
termination
  by (relation "measure (\<lambda>(k, n, v). unread v)") (auto intro: draining_step_unread)

declare merging.simps [simp del] draining.simps [simp del]

text \<open>Decimal output, as \<^verbatim>\<open>%lu\<close> and \<^verbatim>\<open>%d\<close> of \<^verbatim>\<open>fprintf\<close> print it.\<close>

fun show_nat :: "nat \<Rightarrow> string" where
  "show_nat n =
     (if n < 10 then [char_of (48 + n)] else show_nat (n div 10) @ [char_of (48 + n mod 10)])"

declare show_nat.simps [simp del]

definition show_int :: "int \<Rightarrow> string" where
  "show_int i = (if i < 0 then CHR ''-'' # show_nat (nat (- i)) else show_nat (nat i))"

text \<open>
  Lines 154 to 165 of \<^verbatim>\<open>main\<close>, on the unread bytes \<open>f1\<close> and \<open>f2\<close> of the two opened
  files: the first read of either file and its count of sample columns.  The line buffers
  start as null pointers and are not read before the first \<^verbatim>\<open>getline\<close>; the key buffers
  start as empty strings.  The result is the variables and \<^verbatim>\<open>n_sample_2\<close>.
\<close>

definition fresh :: "string \<Rightarrow> matrix" where
  "fresh f = \<lparr>kmer = [], line = [], mat = f\<rparr>"

definition km_diff_init :: "int \<Rightarrow> string \<Rightarrow> string \<Rightarrow> (vars \<times> nat) option" where
  "km_diff_init ksize f1 f2 =
     (let v = \<lparr>matrix_1 = fresh f1, has_kmer_1 = False,
                matrix_2 = fresh f2, has_kmer_2 = False,
                outfile = [], errfile = []\<rparr>
      in case read_1 ksize v of
           None \<Rightarrow> None
         | Some v \<Rightarrow>
             (let n_sample_1 = (if has_kmer_1 v then samples_number (line (matrix_1 v)) else 0);
                  v = v\<lparr>errfile := errfile v @ ''[info] samples in 1st matrix: ''
                                       @ show_nat n_sample_1 @ [NL]\<rparr>
              in case read_2 ksize v of
                   None \<Rightarrow> None
                 | Some v \<Rightarrow>
                     (let n_sample_2 = (if has_kmer_2 v then samples_number (line (matrix_2 v)) else 0);
                          v = v\<lparr>errfile := errfile v @ ''[info] samples in 2nd matrix: ''
                                               @ show_nat n_sample_2 @ [NL]\<rparr>
                      in Some (v, n_sample_2))))"

text \<open>Lines 154 to 188: the first reads, the merging loop and the draining loop.\<close>

definition km_diff :: "bool \<Rightarrow> int \<Rightarrow> string \<Rightarrow> string \<Rightarrow> vars option" where
  "km_diff use_ktcmp ksize f1 f2 =
     (case km_diff_init ksize f1 f2 of
        None \<Rightarrow> None
      | Some (v, n_sample_2) \<Rightarrow>
          (case merging use_ktcmp ksize v of
             None \<Rightarrow> None
           | Some v \<Rightarrow> draining ksize n_sample_2 v))"

subsection \<open>The command line\<close>

text \<open>
  \<^verbatim>\<open>getopt\<close> of the C library, for an option string without a leading \<^verbatim>\<open>+\<close>, \<^verbatim>\<open>-\<close> or
  \<^verbatim>\<open>:\<close> and without optional arguments.  \<open>opt_kind\<close> looks a character up in the option
  string: \<open>None\<close> when it is no option, otherwise whether it takes an argument.
\<close>

definition opt_kind :: "string \<Rightarrow> char \<Rightarrow> bool option" where
  "opt_kind optstring c =
     (if c = CHR '':'' \<or> c = CHR '';'' then None
      else (case dropWhile (\<lambda>x. x \<noteq> c) optstring of
              [] \<Rightarrow> None
            | _ # rest \<Rightarrow> Some (deref rest = CHR '':'')))"

text \<open>
  All the values that successive calls return before \<open>-1\<close>, each with \<^verbatim>\<open>optarg\<close>, and
  the arguments \<^verbatim>\<open>argv[optind]\<close>, ... left once \<open>-1\<close> is returned.  The third argument
  is the rest of the argument being scanned, the fourth the arguments after it
  (initially those after \<^verbatim>\<open>argv[0]\<close>).  With \<open>posix\<close> (the environment variable
  \<^verbatim>\<open>POSIXLY_CORRECT\<close>) scanning stops at the first argument that is no option; without
  it such arguments are skipped and end up after the options.
\<close>

fun getopt_all :: "bool \<Rightarrow> string \<Rightarrow> string \<Rightarrow> string list \<Rightarrow> (char \<times> string) list \<times> string list" where
  "getopt_all posix optstring [] [] = ([], [])"
| "getopt_all posix optstring [] (a # args) =
     (if a = ''--'' then ([], args)
      else if length a \<ge> 2 \<and> deref a = CHR ''-'' then getopt_all posix optstring (tl a) args
      else if posix then ([], a # args)
      else (case getopt_all posix optstring [] args of
              (got, rest) \<Rightarrow> (got, a # rest)))"
| "getopt_all posix optstring (c # cluster) args =
     (case opt_kind optstring c of
        None \<Rightarrow>
          (case getopt_all posix optstring cluster args of
             (got, rest) \<Rightarrow> ((CHR ''?'', []) # got, rest))
      | Some False \<Rightarrow>
          (case getopt_all posix optstring cluster args of
             (got, rest) \<Rightarrow> ((c, []) # got, rest))
      | Some True \<Rightarrow>
          if cluster \<noteq> [] then
            (case getopt_all posix optstring [] args of
               (got, rest) \<Rightarrow> ((c, cluster) # got, rest))
          else
            (case args of
               [] \<Rightarrow> ([(CHR ''?'', [])], [])
             | a # args' \<Rightarrow>
                 (case getopt_all posix optstring [] args' of
                    (got, rest) \<Rightarrow> ((c, a) # got, rest))))"

text \<open>
  \<^verbatim>\<open>strtol(optarg, NULL, 10)\<close> with a 64-bit \<^verbatim>\<open>long\<close>: white space, an optional sign,
  decimal digits; zero when there is no digit; the nearest bound when out of range.
\<close>

definition isspace :: "char \<Rightarrow> bool" where
  "isspace c = (c = CHR '' '' \<or> (9 \<le> uchar c \<and> uchar c \<le> 13))"

definition isdigit :: "char \<Rightarrow> bool" where
  "isdigit c = (48 \<le> uchar c \<and> uchar c \<le> 57)"

fun strtol_digits :: "string \<Rightarrow> int \<Rightarrow> int" where
  "strtol_digits [] acc = acc"
| "strtol_digits (c # cs) acc =
     (if isdigit c then strtol_digits cs (acc * 10 + (int (uchar c) - 48)) else acc)"

definition strtol :: "string \<Rightarrow> int" where
  "strtol s =
     (let s = dropWhile isspace s;
          negative = (deref s = CHR ''-'');
          s = (if deref s = CHR ''-'' \<or> deref s = CHR ''+'' then tl s else s);
          n = strtol_digits s 0;
          n = (if negative then - n else n)
      in max (- (2 ^ 63)) (min (2 ^ 63 - 1) n))"

text \<open>The conversion of a \<^verbatim>\<open>long\<close> to \<^verbatim>\<open>int\<close> in \<^verbatim>\<open>ksize = strtol(...)\<close>: the low 32 bits.\<close>

definition long_to_int :: "int \<Rightarrow> int" where
  "long_to_int n = (n + 2 ^ 31) mod 2 ^ 32 - 2 ^ 31"

record options =
  ksize :: int
  out_fname :: "string option"
  use_ktcmp :: bool
  help_opt :: bool

datatype ending = Returned int | Aborted

text \<open>
  The \<^verbatim>\<open>switch\<close> over the values of \<^verbatim>\<open>getopt\<close>; \<open>Inl\<close> leaves \<^verbatim>\<open>main\<close> from inside the
  loop.
\<close>

fun scan_options :: "(char \<times> string) list \<Rightarrow> options \<Rightarrow> ending + options" where
  "scan_options [] opts = Inr opts"
| "scan_options ((c, optarg) # got) opts =
     (if c = CHR ''k'' then scan_options got (opts\<lparr>ksize := long_to_int (strtol optarg)\<rparr>)
      else if c = CHR ''o'' then scan_options got (opts\<lparr>out_fname := Some optarg\<rparr>)
      else if c = CHR ''z'' then scan_options got (opts\<lparr>use_ktcmp := True\<rparr>)
      else if c = CHR ''h'' then scan_options got (opts\<lparr>help_opt := True\<rparr>)
      else if c = CHR ''?'' then Inl (Returned 1)
      else Inl Aborted)"

definition usage :: string where
  "usage =
     ''Usage: km_diff [options] <matrix_1> <matrix_2>'' @ [NL, NL] @
     ''Difference between two sorted k-mer matrices.'' @ [NL, NL] @
     ''Removes from <matrix_1>, the k-mers in <matrix_2>.'' @ [NL, NL] @
     ''Options:'' @ [NL] @
     ''  -k INT   size of k-mers of input matrices [31]'' @ [NL] @
     ''  -o FILE  write output matrix to FILE [stdout]'' @ [NL] @
     ''  -z       use kmtricks order of nucleotides: A<C<T<G'' @ [NL] @
     ''  -h       print this help message'' @ [NL]"

subsection \<open>The program\<close>

text \<open>
  What \<^verbatim>\<open>main\<close> finds outside: the content of every file that can be opened for reading,
  the paths that can be opened for writing, which paths name one and the same file (a
  file has many names: links, \<^verbatim>\<open>./left\<close> for \<^verbatim>\<open>left\<close>), and whether
  \<^verbatim>\<open>POSIXLY_CORRECT\<close> is set.
\<close>

record env =
  files :: "string \<rightharpoonup> string"
  writable :: "string \<Rightarrow> bool"
  same_file :: "string \<Rightarrow> string \<Rightarrow> bool"
  posixly_correct :: bool

text \<open>
  What a run leaves behind: how it ended, the text \<^verbatim>\<open>main\<close> wrote to the standard output
  and error streams, the file of option \<^verbatim>\<open>-o\<close> with the text written to it, and the
  paths passed to \<^verbatim>\<open>fopen\<close>, in order.  The message that \<^verbatim>\<open>getopt\<close> itself prints for
  an option it rejects is not recorded.
\<close>

record run =
  ending :: ending
  to_stdout :: string
  to_stderr :: string
  to_file :: "(string \<times> string) option"
  fopened :: "string list"

definition cannot_open :: "string \<Rightarrow> string" where
  "cannot_open path = ''Cannot open file '' @ [CHR 0x22] @ path @ [CHR 0x22, NL]"

definition cannot_open_output :: "string \<Rightarrow> string" where
  "cannot_open_output path = ''Cannot open output file '' @ [CHR 0x22] @ path @ [CHR 0x22, NL]"

text \<open>Lines 94 to 114: the loop over the options.\<close>

definition parse_command_line :: "env \<Rightarrow> string list \<Rightarrow> ending + (options \<times> string list)" where
  "parse_command_line e args =
     (case getopt_all (posixly_correct e) ''k:o:h'' [] args of
        (got, rest) \<Rightarrow>
          (case scan_options got \<lparr>ksize = 31, out_fname = None, use_ktcmp = False, help_opt = False\<rparr> of
             Inl r \<Rightarrow> Inl r
           | Inr opts \<Rightarrow> Inr (opts, rest)))"

text \<open>
  \<^verbatim>\<open>main\<close> on the arguments after \<^verbatim>\<open>argv[0]\<close>.  \<open>None\<close> is a run whose behaviour the C standard leaves undefined: a read outside
  \<^verbatim>\<open>isnuc\<close>, or the overflow of \<^verbatim>\<open>ksize+1\<close> in the call of \<^verbatim>\<open>calloc\<close>.  Opening the
  output file truncates it before the first line of an input file is read, so an input
  path that names the file of the output path is read as empty.
\<close>

definition main :: "env \<Rightarrow> string list \<Rightarrow> run option" where
  "main e args =
     (case parse_command_line e args of
        Inl r \<Rightarrow>
          Some \<lparr>ending = r, to_stdout = [], to_stderr = [], to_file = None, fopened = []\<rparr>
      | Inr (opts, rest) \<Rightarrow>
          if ksize opts \<le> 0 then
            Some \<lparr>ending = Returned 1, to_stdout = [],
                  to_stderr = ''Invalid value of k: '' @ show_int (ksize opts) @ [NL],
                  to_file = None, fopened = []\<rparr>
          else if int (length rest) \<noteq> 2 \<or> help_opt opts then
            Some \<lparr>ending = Returned 0, to_stdout = usage, to_stderr = [],
                  to_file = None, fopened = []\<rparr>
          else
            (case files e (rest ! 0) of
               None \<Rightarrow>
                 Some \<lparr>ending = Returned 1, to_stdout = [], to_stderr = cannot_open (rest ! 0),
                       to_file = None, fopened = [rest ! 0]\<rparr>
             | Some f1 \<Rightarrow>
                 (case files e (rest ! 1) of
                    None \<Rightarrow>
                      Some \<lparr>ending = Returned 1, to_stdout = [],
                            to_stderr = cannot_open (rest ! 1),
                            to_file = None, fopened = [rest ! 0, rest ! 1]\<rparr>
                  | Some f2 \<Rightarrow>
                      (case out_fname opts of
                         None \<Rightarrow>
                           if ksize opts = 2 ^ 31 - 1 then None
                           else
                             (case km_diff (use_ktcmp opts) (ksize opts) f1 f2 of
                                None \<Rightarrow> None
                              | Some v \<Rightarrow>
                                  Some \<lparr>ending = Returned 0, to_stdout = outfile v,
                                        to_stderr = errfile v, to_file = None,
                                        fopened = [rest ! 0, rest ! 1]\<rparr>)
                       | Some out \<Rightarrow>
                           if \<not> writable e out then
                             Some \<lparr>ending = Returned 1, to_stdout = [],
                                   to_stderr = cannot_open_output out,
                                   to_file = None, fopened = [rest ! 0, rest ! 1, out]\<rparr>
                           else if ksize opts = 2 ^ 31 - 1 then None
                           else
                             (case km_diff (use_ktcmp opts) (ksize opts)
                                     (if same_file e (rest ! 0) out then [] else f1)
                                     (if same_file e (rest ! 1) out then [] else f2) of
                                None \<Rightarrow> None
                              | Some v \<Rightarrow>
                                  Some \<lparr>ending = Returned 0, to_stdout = [],
                                        to_stderr = errfile v, to_file = Some (out, outfile v),
                                        fopened = [rest ! 0, rest ! 1, out]\<rparr>)))))"

subsection \<open>The example of the specification\<close>

definition left_P6 :: string where
  "left_P6 = ''AAA 1 2'' @ [NL] @ ''AAC 0 1'' @ [NL] @ ''TTT 3 3'' @ [NL]"

definition right_P6 :: string where
  "right_P6 = ''AAC 5 5'' @ [NL] @ ''GGG 0 0'' @ [NL]"

definition env_P6 :: env where
  "env_P6 = \<lparr>files = [''left'' \<mapsto> left_P6, ''right'' \<mapsto> right_P6],
             writable = (\<lambda>p. True), same_file = (\<lambda>p q. p = q),
             posixly_correct = False\<rparr>"

subsection \<open>Notions for the properties\<close>

text \<open>The alphabet of keys, and the bytes for which \<^verbatim>\<open>isnuc\<close> holds 1.\<close>

definition ACGT :: "char set" where
  "ACGT = {CHR ''A'', CHR ''C'', CHR ''G'', CHR ''T''}"

definition nucleotides :: "char set" where
  "nucleotides = set ''ACGNTacgnt''"

text \<open>The rank table as the specification words it: A 0, C 1, T 2, G 3, any other byte 1.\<close>

definition nucleotide_rank :: "char \<Rightarrow> int" where
  "nucleotide_rank c =
     (if c = CHR ''A'' then 0 else if c = CHR ''C'' then 1
      else if c = CHR ''T'' then 2 else if c = CHR ''G'' then 3 else 1)"

text \<open>The first position at which two keys differ (their common length if none).\<close>

definition first_diff :: "string \<Rightarrow> string \<Rightarrow> nat" where
  "first_diff k1 k2 = length (takeWhile (\<lambda>(a, b). a = b) (zip k1 k2))"

text \<open>
  The records of a file: what successive calls of the reader return for it, up to the
  first call that returns false.  \<open>in_table\<close> says that none of these calls reads
  \<^verbatim>\<open>isnuc\<close> out of bounds.
\<close>

function rows :: "int \<Rightarrow> string \<Rightarrow> (string \<times> string) list" where
  "rows K f =
     (case next_kmer_and_line K (fresh f) of
        None \<Rightarrow> []
      | Some (h, m, e) \<Rightarrow> if h then (kmer m, line m) # rows K (mat m) else [])"
  by pat_completeness auto
termination
proof (relation "measure (\<lambda>(K, f). length f)", goal_cases)
  case 1
  show ?case by simp
next
  case (2 K f x2 h y m e)
  then have "next_kmer_and_line K (fresh f) = Some (h, m, e)" by simp
  from next_kmer_and_line_unread [OF this] 2 show ?case by (simp add: fresh_def)
qed

function in_table :: "int \<Rightarrow> string \<Rightarrow> bool" where
  "in_table K f =
     (case next_kmer_and_line K (fresh f) of
        None \<Rightarrow> False
      | Some (h, m, e) \<Rightarrow> if h then in_table K (mat m) else True)"
  by pat_completeness auto
termination
proof (relation "measure (\<lambda>(K, f). length f)", goal_cases)
  case 1
  show ?case by simp
next
  case (2 K f x2 h y m e)
  then have "next_kmer_and_line K (fresh f) = Some (h, m, e)" by simp
  from next_kmer_and_line_unread [OF this] 2 show ?case by (simp add: fresh_def)
qed

declare rows.simps [simp del] in_table.simps [simp del]

text \<open>The records a matrix still holds: the current one, then those of its file.\<close>

definition pending_1 :: "int \<Rightarrow> vars \<Rightarrow> (string \<times> string) list" where
  "pending_1 K v =
     (if has_kmer_1 v then (kmer (matrix_1 v), line (matrix_1 v)) # rows K (mat (matrix_1 v)) else [])"

definition pending_2 :: "int \<Rightarrow> vars \<Rightarrow> (string \<times> string) list" where
  "pending_2 K v =
     (if has_kmer_2 v then (kmer (matrix_2 v), line (matrix_2 v)) # rows K (mat (matrix_2 v)) else [])"

text \<open>
  A row of the draining phase: key, one space, the sample columns, \<open>n\<close> zero columns.
  The width of a file: the number of tokens after the first in its first record.
\<close>

definition drained_row :: "nat \<Rightarrow> string \<times> string \<Rightarrow> string" where
  "drained_row n r = fst r @ '' '' @ first_column (snd r) @ concat (replicate n '' 0'') @ [NL]"

definition Width :: "int \<Rightarrow> string \<Rightarrow> nat" where
  "Width K f = (case rows K f of [] \<Rightarrow> 0 | r # _ \<Rightarrow> length (strtok_all (snd r)) - 1)"

text \<open>The text the two loops write, as a function of the records of the two files.\<close>

fun diff_rows :: "(string \<Rightarrow> string \<Rightarrow> int) \<Rightarrow> nat \<Rightarrow> (string \<times> string) list \<Rightarrow> (string \<times> string) list \<Rightarrow> string" where
  "diff_rows cmp n [] rs = []"
| "diff_rows cmp n (l # ls) [] = drained_row n l @ diff_rows cmp n ls []"
| "diff_rows cmp n (l # ls) (r # rs) =
     (if cmp (fst l) (fst r) = 0 then [NL] @ diff_rows cmp n ls rs
      else if cmp (fst l) (fst r) < 0 then snd l @ [NL] @ diff_rows cmp n ls (r # rs)
      else [NL] @ diff_rows cmp n (l # ls) rs)"

text \<open>
  The lines of an output text, and the keys of the rows in it: the first K bytes of
  every line that is not empty.
\<close>

fun split_nl :: "string \<Rightarrow> string list" where
  "split_nl [] = [[]]"
| "split_nl (c # cs) =
     (if c = NL then [] # split_nl cs
      else (case split_nl cs of [] \<Rightarrow> [[c]] | l # ls \<Rightarrow> (c # l) # ls))"

definition emitted_keys :: "int \<Rightarrow> string \<Rightarrow> string list" where
  "emitted_keys K out = map (take (nat K)) (filter (\<lambda>l. l \<noteq> []) (split_nl out))"

text \<open>What the reader guarantees of a record it returns.\<close>

definition row_ok :: "int \<Rightarrow> string \<times> string \<Rightarrow> bool" where
  "row_ok K r = (length (fst r) = nat K \<and> take (nat K) (snd r) = fst r
                 \<and> set (fst r) \<subseteq> nucleotides \<and> NL \<notin> set (snd r))"

text \<open>The keys on which the selected comparator is an order.\<close>

definition key_domain :: "bool \<Rightarrow> int \<Rightarrow> string set" where
  "key_domain z K = {k. length k = nat K \<and> set k \<subseteq> (if z then ACGT else nucleotides)}"

subsection \<open>Further examples\<close>

text \<open>The variables of the example after the first reads and after the merging loop.\<close>

definition P6_v0 :: vars where
  "P6_v0 = \<lparr>matrix_1 = \<lparr>kmer = ''AAA'', line = ''AAA 1 2'',
                           mat = ''AAC 0 1'' @ [NL] @ ''TTT 3 3'' @ [NL]\<rparr>,
              has_kmer_1 = True,
              matrix_2 = \<lparr>kmer = ''AAC'', line = ''AAC 5 5'', mat = ''GGG 0 0'' @ [NL]\<rparr>,
              has_kmer_2 = True, outfile = [],
              errfile = ''[info] samples in 1st matrix: 2'' @ [NL]
                          @ ''[info] samples in 2nd matrix: 2'' @ [NL]\<rparr>"

definition P6_vm :: vars where
  "P6_vm = P6_v0\<lparr>matrix_1 := \<lparr>kmer = ''TTT'', line = ''TTT 3 3'', mat = []\<rparr>,
                  matrix_2 := \<lparr>kmer = ''GGG'', line = ''GGG 0 0'', mat = []\<rparr>,
                  has_kmer_2 := False, outfile := ''AAA 1 2'' @ [NL] @ [NL] @ [NL]\<rparr>"

text \<open>
  Two files with a repeated key, two files sorted in the order A<C<T<G, and two files
  whose keys the rank table does not tell apart.
\<close>

definition dup_left :: string where
  "dup_left = ''A 1'' @ [NL] @ ''A 2'' @ [NL]"

definition dup_right :: string where
  "dup_right = ''A 5'' @ [NL]"

definition kt_left :: string where
  "kt_left = ''AT 1'' @ [NL] @ ''AG 2'' @ [NL]"

definition kt_right :: string where
  "kt_right = ''AG 7'' @ [NL]"

definition N_left :: string where
  "N_left = ''N 1'' @ [NL]"

definition C_right :: string where
  "C_right = ''C 5'' @ [NL]"

text \<open>
  A left file whose second line is shorter than K=3, a file that starts with a line
  whose key holds \<^verbatim>\<open>x\<close>, and a right file.
\<close>

definition short_g :: string where
  "short_g = ''AAA 1'' @ [NL]"

definition short_b :: string where
  "short_b = ''A'' @ [NL] @ ''TTT 2'' @ [NL]"

definition bad_b :: string where
  "bad_b = ''AxA 3'' @ [NL] @ ''TTT 2'' @ [NL]"

definition right_CCC :: string where
  "right_CCC = ''CCC 1'' @ [NL]"

definition env_short :: env where
  "env_short = \<lparr>files = [''left'' \<mapsto> short_g @ short_b, ''right'' \<mapsto> right_CCC],
                writable = (\<lambda>p. True), same_file = (\<lambda>p q. p = q),
             posixly_correct = False\<rparr>"

definition opts_k3 :: options where
  "opts_k3 = \<lparr>ksize = 3, out_fname = None, use_ktcmp = False, help_opt = False\<rparr>"

text \<open>
  A left file whose key and column are separated by two tabs, a right file, and a file
  whose first line holds K-1 = 2 letters before its newline.
\<close>

definition tab_left :: string where
  "tab_left = ''A'' @ [TAB, TAB] @ ''1'' @ [NL]"

definition C_one :: string where
  "C_one = ''C 1'' @ [NL]"

definition nl_b :: string where
  "nl_b = ''AA'' @ [NL] @ ''TTT 2'' @ [NL]"

text \<open>Variables of the merging loop with two equal keys.\<close>

definition vars_AAC :: vars where
  "vars_AAC = \<lparr>matrix_1 = \<lparr>kmer = ''AAC'', line = ''AAC 0 1'', mat = ''TTT 3 3'' @ [NL]\<rparr>,
               has_kmer_1 = True,
               matrix_2 = \<lparr>kmer = ''AAC'', line = ''AAC 5 5'', mat = ''GGG 0 0'' @ [NL]\<rparr>,
               has_kmer_2 = True,
               outfile = ''AAA 1 2'' @ [NL], errfile = []\<rparr>"

section \<open>Properties\<close>

subsection \<open>The tables\<close>

lemma isnuc_at_all:
  "\<forall>c. isnuc_at c = (if 128 \<le> uchar c then None else Some (if c \<in> nucleotides then 1 else 0))"
  by code_simp

lemma isnuc_at_eq:
  "isnuc_at c = (if 128 \<le> uchar c then None else Some (if c \<in> nucleotides then 1 else 0))"
  using isnuc_at_all by blast

lemma n2kt_at_all:
  "\<forall>c. n2kt_at c = (if c \<in> set ''Aa'' then 0 else if c \<in> set ''Tt'' then 2
                     else if c \<in> set ''Gg'' then 3 else 1)"
  by code_simp

lemma n2kt_at_rank: "c \<in> ACGT \<Longrightarrow> n2kt_at c = nucleotide_rank c"
  using n2kt_at_all by (auto simp: ACGT_def nucleotide_rank_def)

lemma ACGT_not_NUL: "c \<in> ACGT \<Longrightarrow> c \<noteq> NUL"
  by (auto simp: NUL_def ACGT_def)

lemma nucleotides_not_NUL: "c \<in> nucleotides \<Longrightarrow> c \<noteq> NUL"
  by (auto simp: NUL_def nucleotides_def)

lemma nucleotides_below_128: "c \<in> nucleotides \<Longrightarrow> uchar c < 128"
  by (auto simp: nucleotides_def uchar_def)

lemma ACGT_nucleotides: "ACGT \<subseteq> nucleotides"
  by (auto simp: ACGT_def nucleotides_def)

subsection \<open>The nucleotide-rank comparator\<close>

lemma ktcmp_Nil: "ktcmp [] [] = 0"
  by (simp add: ktcmp.simps [of "[]"] deref_def)

lemma ktcmp_Cons:
  "x \<noteq> NUL \<Longrightarrow> ktcmp (x # xs) (y # ys) = (if x = y then ktcmp xs ys else n2kt_at x - n2kt_at y)"
  by (subst ktcmp.simps) (simp add: deref_def)

lemma ktcmp_first_diff:
  assumes "length k1 = length k2" and "set k1 \<subseteq> ACGT" and "set k2 \<subseteq> ACGT"
  shows "ktcmp k1 k2 =
           (if k1 = k2 then 0
            else nucleotide_rank (k1 ! first_diff k1 k2) - nucleotide_rank (k2 ! first_diff k1 k2))"
  using assms
proof (induction k1 k2 rule: list_induct2)
  case Nil
  show ?case by (simp add: ktcmp_Nil)
next
  case (Cons x xs y ys)
  from Cons.prems have x: "x \<in> ACGT" and y: "y \<in> ACGT" by simp_all
  show ?case
  proof (cases "x = y")
    case True
    with Cons x show ?thesis
      by (simp add: ktcmp_Cons ACGT_not_NUL first_diff_def)
  next
    case False
    with x y show ?thesis
      by (simp add: ktcmp_Cons ACGT_not_NUL first_diff_def n2kt_at_rank)
  qed
qed

lemma first_diff_differs:
  "length k1 = length k2 \<Longrightarrow> k1 \<noteq> k2 \<Longrightarrow>
     first_diff k1 k2 < length k1 \<and> take (first_diff k1 k2) k1 = take (first_diff k1 k2) k2
       \<and> k1 ! first_diff k1 k2 \<noteq> k2 ! first_diff k1 k2"
  by (induction k1 k2 rule: list_induct2) (auto simp: first_diff_def)

lemma ktcmp_single_letters: "ktcmp ''A'' ''C'' < 0 \<and> ktcmp ''C'' ''T'' < 0 \<and> ktcmp ''T'' ''G'' < 0"
  by code_simp

text \<open>
  Claim C5: on two keys of equal length over A, C, G, T, \<^verbatim>\<open>ktcmp\<close> returns zero when the
  keys are identical, and otherwise the difference of the ranks (A 0, C 1, T 2, G 3) of
  the two letters at the first position where the keys differ; on keys of one letter it
  orders A before C before T before G.
\<close>

theorem ktcmp_rank_difference:
  assumes "length k1 = length k2" and "set k1 \<subseteq> ACGT" and "set k2 \<subseteq> ACGT"
  shows "(k1 = k2 \<longrightarrow> ktcmp k1 k2 = 0)
       \<and> (k1 \<noteq> k2 \<longrightarrow>
            first_diff k1 k2 < length k1
          \<and> take (first_diff k1 k2) k1 = take (first_diff k1 k2) k2
          \<and> k1 ! first_diff k1 k2 \<noteq> k2 ! first_diff k1 k2
          \<and> ktcmp k1 k2 = nucleotide_rank (k1 ! first_diff k1 k2)
                             - nucleotide_rank (k2 ! first_diff k1 k2))
       \<and> ktcmp ''A'' ''C'' < 0 \<and> ktcmp ''C'' ''T'' < 0 \<and> ktcmp ''T'' ''G'' < 0"
  using ktcmp_first_diff [OF assms] first_diff_differs [OF assms(1)] ktcmp_single_letters
  by (cases "k1 = k2") simp_all

theorem ktcmp_rank_difference_witness:
  "length ''ACGT'' = length ''ACTT'' \<and> set ''ACGT'' \<subseteq> ACGT \<and> set ''ACTT'' \<subseteq> ACGT
   \<and> ''ACGT'' \<noteq> ''ACTT'' \<and> first_diff ''ACGT'' ''ACTT'' = 2
   \<and> ktcmp ''ACGT'' ''ACTT'' = nucleotide_rank (CHR ''G'') - nucleotide_rank (CHR ''T'')
   \<and> ktcmp ''ACGT'' ''ACTT'' = 1 \<and> ktcmp ''ACGT'' ''ACGT'' = 0"
proof -
  have a: "length ''ACGT'' = length ''ACTT''" by simp
  have b: "set ''ACGT'' \<subseteq> ACGT" "set ''ACTT'' \<subseteq> ACGT" by (simp_all add: ACGT_def)
  have d: "first_diff ''ACGT'' ''ACTT'' = 2" by (simp add: first_diff_def)
  from ktcmp_rank_difference [OF a b] ktcmp_rank_difference [OF refl b(1) b(1)] a b d
  show ?thesis by (simp add: nucleotide_rank_def)
qed

subsection \<open>The record reader\<close>

lemma copy_kmer_find:
  "copy_kmer cs w =
     (case find (\<lambda>c. c \<notin> nucleotides) cs of
        None \<Rightarrow> Copied (w @ cs)
      | Some c \<Rightarrow> if uchar c < 128 then Not_nuc (w @ takeWhile (\<lambda>c. c \<in> nucleotides) cs)
                  else Out_of_table)"
  by (induction cs arbitrary: w)
     (auto simp: isnuc_at_eq split: option.splits dest: nucleotides_below_128)

text \<open>
  Claim C4 says that a line that passes the length check is accepted exactly when each
  of its first K characters is one of A, C, G, T.  The table \<^verbatim>\<open>isnuc\<close> holds 1 for ten
  bytes: A, C, G, N, T and their lowercase letters; a line whose key is \<^verbatim>\<open>N\<close> or \<^verbatim>\<open>a\<close>
  is accepted.
\<close>

theorem reader_accepts_N_and_lowercase:
  "next_kmer_and_line 1 (fresh (''N 1'' @ [NL]))
     = Some (True, \<lparr>kmer = ''N'', line = ''N 1'', mat = []\<rparr>, [])
   \<and> next_kmer_and_line 1 (fresh (''a 1'' @ [NL]))
     = Some (True, \<lparr>kmer = ''a'', line = ''a 1'', mat = []\<rparr>, [])
   \<and> CHR ''N'' \<notin> ACGT \<and> CHR ''a'' \<notin> ACGT"
  by code_simp

text \<open>
  Claim C4, amended: a line that passes the length check is accepted exactly when each
  of its first K characters is one of the ten bytes A, C, G, N, T, a, c, g, n, t.
  Otherwise, when the first character outside this set is a byte below 128, the reader
  writes the warning and returns false; for a byte from 128 on the table is read out of
  bounds.  The theorem gives the returned flag and the text written to the standard
  error stream.
\<close>

theorem reader_accepts_nucleotides:
  assumes "getline (mat m) = Some (l, rest)" and "K \<le> int (length l)"
  shows "map_option (\<lambda>(h, m', e). (h, e)) (next_kmer_and_line K m) =
           (case find (\<lambda>c. c \<notin> nucleotides) (take (nat K) l) of
              None \<Rightarrow> Some (True, [])
            | Some c \<Rightarrow> if uchar c < 128 then Some (False, warning) else None)"
  using assms
  by (simp add: next_kmer_and_line_def copy_kmer_find split: option.splits)

lemma getline_GAn: "getline (mat (fresh (''GAn 7'' @ [NL] @ ''TTT 1''))) = Some (''GAn 7'' @ [NL], ''TTT 1'')"
  by code_simp

lemma getline_GAx: "getline (mat (fresh (''GAx 7'' @ [NL] @ ''TTT 1''))) = Some (''GAx 7'' @ [NL], ''TTT 1'')"
  by code_simp

theorem reader_accepts_nucleotides_witness:
  "getline (mat (fresh (''GAn 7'' @ [NL] @ ''TTT 1''))) = Some (''GAn 7'' @ [NL], ''TTT 1'')
   \<and> (3::int) \<le> int (length (''GAn 7'' @ [NL]))
   \<and> map_option (\<lambda>(h, m', e). (h, e)) (next_kmer_and_line 3 (fresh (''GAn 7'' @ [NL] @ ''TTT 1'')))
       = Some (True, [])
   \<and> map_option (\<lambda>(h, m', e). (h, e)) (next_kmer_and_line 3 (fresh (''GAx 7'' @ [NL] @ ''TTT 1'')))
       = Some (False, warning)"
proof -
  have k: "(3::int) \<le> int (length (''GAn 7'' @ [NL]))" "(3::int) \<le> int (length (''GAx 7'' @ [NL]))"
    by simp_all
  have n: "find (\<lambda>c. c \<notin> nucleotides) (take (nat 3) (''GAn 7'' @ [NL])) = None"
    by (simp add: nucleotides_def)
  have x: "find (\<lambda>c. c \<notin> nucleotides) (take (nat 3) (''GAx 7'' @ [NL])) = Some (CHR ''x'')"
    by (simp add: nucleotides_def)
  have u: "uchar (CHR ''x'') < 128" by (simp add: uchar_def)
  from reader_accepts_nucleotides [OF getline_GAn k(1)] reader_accepts_nucleotides [OF getline_GAx k(2)]
       getline_GAn k(1)
  show ?thesis by (simp only: n x u option.case if_True simp_thms)
qed

subsection \<open>Configuration errors\<close>

text \<open>
  Claim C8 says that every configuration error, a wrong number of input paths
  included, ends the process with a non-zero status.  With one input path \<^verbatim>\<open>main\<close> prints
  the usage text on the standard output and returns 0, the branch it shares with
  option \<^verbatim>\<open>-h\<close>.
\<close>

theorem wrong_argument_count_returns_0:
  "main env_P6 [''-k'', ''3'', ''left'']
     = Some \<lparr>ending = Returned 0, to_stdout = usage, to_stderr = [], to_file = None, fopened = []\<rparr>"
  by code_simp

text \<open>
  Claim C8, amended: when the options are accepted, a key length K \<open>\<le>\<close> 0 is fatal: it
  is reported on the standard error stream before any file is opened, the process
  returns 1 and writes nothing else; with a positive key length, a number of input
  paths other than two makes the program print the usage text on the standard output
  before any file is opened, write no output row and return 0.
\<close>

theorem configuration_errors:
  assumes "parse_command_line e args = Inr (opts, rest)"
  shows "(ksize opts \<le> 0 \<longrightarrow>
            main e args = Some \<lparr>ending = Returned 1, to_stdout = [],
                                 to_stderr = ''Invalid value of k: '' @ show_int (ksize opts) @ [NL],
                                 to_file = None, fopened = []\<rparr>)
       \<and> (0 < ksize opts \<and> length rest \<noteq> 2 \<longrightarrow>
            main e args = Some \<lparr>ending = Returned 0, to_stdout = usage, to_stderr = [],
                                 to_file = None, fopened = []\<rparr>)"
  using assms by (simp add: main_def)

lemma parse_k0: "parse_command_line env_P6 [''-k'', ''0'', ''left'', ''right'']
   = Inr (\<lparr>ksize = 0, out_fname = None, use_ktcmp = False, help_opt = False\<rparr>, [''left'', ''right''])"
  by code_simp

lemma parse_one_file: "parse_command_line env_P6 [''-k'', ''3'', ''left'']
   = Inr (\<lparr>ksize = 3, out_fname = None, use_ktcmp = False, help_opt = False\<rparr>, [''left''])"
  by code_simp

lemma show_int_0: "show_int 0 = ''0''"
  by code_simp

theorem configuration_errors_witness:
  "parse_command_line env_P6 [''-k'', ''0'', ''left'', ''right'']
     = Inr (\<lparr>ksize = 0, out_fname = None, use_ktcmp = False, help_opt = False\<rparr>, [''left'', ''right''])
   \<and> main env_P6 [''-k'', ''0'', ''left'', ''right'']
     = Some \<lparr>ending = Returned 1, to_stdout = [], to_stderr = ''Invalid value of k: 0'' @ [NL],
             to_file = None, fopened = []\<rparr>
   \<and> parse_command_line env_P6 [''-k'', ''3'', ''left'']
     = Inr (\<lparr>ksize = 3, out_fname = None, use_ktcmp = False, help_opt = False\<rparr>, [''left''])
   \<and> main env_P6 [''-k'', ''3'', ''left'']
     = Some \<lparr>ending = Returned 0, to_stdout = usage, to_stderr = [], to_file = None, fopened = []\<rparr>"
  using configuration_errors [OF parse_k0] configuration_errors [OF parse_one_file]
        parse_k0 parse_one_file
  by (simp add: show_int_0)

subsection \<open>What the two loops write for a row\<close>

lemma outfile_fputs [simp]: "outfile (fputs s v) = outfile v @ s"
  by (simp add: fputs_def)

lemma matrix_1_fputs [simp]: "matrix_1 (fputs s v) = matrix_1 v"
  by (simp add: fputs_def)

lemma outfile_fputs_zeros [simp]: "outfile (fputs_zeros n v) = outfile v @ concat (replicate n '' 0'')"
  by (induction n arbitrary: v) simp_all

lemma matrix_1_fputs_zeros [simp]: "matrix_1 (fputs_zeros n v) = matrix_1 v"
  by (induction n arbitrary: v) simp_all

lemma outfile_read_1: "read_1 K v = Some v' \<Longrightarrow> outfile v' = outfile v"
  by (auto simp: read_1_def split: option.splits)

lemma draining_step_outfile:
  assumes "draining_step K n v = Some v'"
  shows "outfile v' = outfile v @ kmer (matrix_1 v) @ '' '' @ first_column (line (matrix_1 v))
                        @ concat (replicate n '' 0'') @ [NL]"
  using outfile_read_1 [OF assms [unfolded draining_step_def Let_def]] by simp

lemma first_column_skips:
  assumes "set key \<inter> {CHR '' '', TAB, NUL} = {}" and "set sep \<subseteq> {CHR '' '', TAB}"
    and "sep \<noteq> []" and "deref cols \<notin> {CHR '' '', TAB}"
  shows "first_column (key @ sep @ cols) = cols"
proof -
  have n: "CHR '' '' \<noteq> NUL" "TAB \<noteq> NUL" by (simp_all add: NUL_def TAB_def)
  have 1: "dropWhile (\<lambda>c. c \<noteq> NUL \<and> c \<noteq> CHR '' '' \<and> c \<noteq> TAB) (key @ sep @ cols)
         = dropWhile (\<lambda>c. c \<noteq> NUL \<and> c \<noteq> CHR '' '' \<and> c \<noteq> TAB) (sep @ cols)"
    using assms(1) by (intro dropWhile_append2) auto
  have 2: "dropWhile (\<lambda>c. c \<noteq> NUL \<and> c \<noteq> CHR '' '' \<and> c \<noteq> TAB) (sep @ cols) = sep @ cols"
    using assms(2,3) n by (cases sep) auto
  have 3: "dropWhile (\<lambda>c. c \<noteq> NUL \<and> (c = CHR '' '' \<or> c = TAB)) (sep @ cols)
         = dropWhile (\<lambda>c. c \<noteq> NUL \<and> (c = CHR '' '' \<or> c = TAB)) cols"
    using assms(2) n by (intro dropWhile_append2) auto
  have 4: "dropWhile (\<lambda>c. c \<noteq> NUL \<and> (c = CHR '' '' \<or> c = TAB)) cols = cols"
    using assms(4) by (cases cols) (auto simp: deref_def)
  show ?thesis by (simp add: first_column_def 1 2 3 4)
qed

lemma merging_step_outfile:
  assumes "merging_step z K v = Some v'"
  shows "outfile v' =
           (if key_cmp z (kmer (matrix_1 v)) (kmer (matrix_2 v)) < 0
            then outfile v @ line (matrix_1 v) @ [NL]
            else outfile v @ [NL])"
  using assms
  by (auto simp: merging_step_def Let_def read_1_def read_2_def fputs_def
           split: if_splits option.splits)

subsection \<open>The records of a file\<close>

lemma next_kmer_and_line_fresh:
  assumes "next_kmer_and_line K m = Some (h, m', e)"
  shows "\<exists>m''. next_kmer_and_line K (fresh (mat m)) = Some (h, m'', e) \<and> mat m'' = mat m'
            \<and> (h \<longrightarrow> kmer m'' = kmer m' \<and> line m'' = line m')"
  using assms
  by (auto simp: next_kmer_and_line_def fresh_def split: option.splits if_splits copied.splits)

lemma next_kmer_and_line_fresh_None:
  "next_kmer_and_line K m = None \<Longrightarrow> next_kmer_and_line K (fresh (mat m)) = None"
  by (cases "getline (mat m)")
     (auto simp: next_kmer_and_line_def fresh_def split: if_splits copied.splits)

lemma rows_read:
  assumes "next_kmer_and_line K m = Some (h, m', e)"
  shows "rows K (mat m) = (if h then (kmer m', line m') # rows K (mat m') else [])"
proof -
  from next_kmer_and_line_fresh [OF assms] obtain m'' where
    "next_kmer_and_line K (fresh (mat m)) = Some (h, m'', e)" "mat m'' = mat m'"
    "h \<longrightarrow> kmer m'' = kmer m' \<and> line m'' = line m'" by blast
  then show ?thesis by (subst rows.simps) simp
qed

lemma in_table_read:
  assumes "in_table K (mat m)"
  shows "\<exists>h m' e. next_kmer_and_line K m = Some (h, m', e) \<and> (h \<longrightarrow> in_table K (mat m'))"
proof (cases "next_kmer_and_line K m")
  case None
  from next_kmer_and_line_fresh_None [OF this] assms show ?thesis
    by (subst (asm) in_table.simps) simp
next
  case (Some r)
  obtain h m' e where r: "r = (h, m', e)" by (cases r)
  from next_kmer_and_line_fresh [OF Some [unfolded r]] obtain m'' where
    "next_kmer_and_line K (fresh (mat m)) = Some (h, m'', e)" "mat m'' = mat m'" by blast
  with assms have "h \<longrightarrow> in_table K (mat m')"
    by (subst (asm) in_table.simps) (auto split: if_splits)
  with Some r show ?thesis by simp
qed

lemma matrix_2_fputs [simp]: "matrix_2 (fputs s v) = matrix_2 v"
  by (simp add: fputs_def)

lemma matrix_2_fputs_zeros [simp]: "matrix_2 (fputs_zeros n v) = matrix_2 v"
  by (induction n arbitrary: v) simp_all

lemma pending_fputs [simp]:
  "pending_1 K (fputs s v) = pending_1 K v" "pending_2 K (fputs s v) = pending_2 K v"
  by (simp_all add: pending_1_def pending_2_def)

lemma split_nl_not_Nil [simp]: "split_nl s \<noteq> []"
  by (induction s) (auto split: list.splits)

lemma split_nl_line: "NL \<notin> set r \<Longrightarrow> split_nl (r @ NL # s) = r # split_nl s"
  by (induction r) (auto split: list.splits)

lemma emitted_keys_Nil [simp]: "emitted_keys K [] = []"
  by (simp add: emitted_keys_def)

lemma emitted_keys_NL [simp]: "emitted_keys K (NL # s) = emitted_keys K s"
  by (simp add: emitted_keys_def)

lemma emitted_keys_row:
  "NL \<notin> set r \<Longrightarrow> r \<noteq> [] \<Longrightarrow> emitted_keys K (r @ NL # s) = take (nat K) r # emitted_keys K s"
  by (simp add: emitted_keys_def split_nl_line)

lemma copy_kmer_Copied:
  "copy_kmer cs w = Copied k \<Longrightarrow> k = w @ cs \<and> set cs \<subseteq> nucleotides"
  by (auto simp: copy_kmer_find split: option.splits if_splits simp: find_None_iff)

lemma getline_line:
  assumes "getline f = Some (l, rest)"
  shows "l \<noteq> [] \<and> NL \<notin> set (butlast l) \<and> f = l @ rest"
proof (cases "dropWhile (\<lambda>c. c \<noteq> NL) f")
  case Nil
  have g: "getline f = (if f = [] then None else Some (f, []))"
    unfolding getline_def Nil by simp
  from Nil have "\<forall>x\<in>set f. x \<noteq> NL" by simp
  then have "NL \<notin> set (butlast f)" by (auto dest: in_set_butlastD)
  with assms g show ?thesis
    by (auto split: if_splits)
next
  case (Cons c r)
  have g: "getline f = (if f = [] then None else Some (takeWhile (\<lambda>c. c \<noteq> NL) f @ [c], r))"
    unfolding getline_def Cons by simp
  have "takeWhile (\<lambda>c. c \<noteq> NL) f @ dropWhile (\<lambda>c. c \<noteq> NL) f = f" by simp
  then have f: "f = takeWhile (\<lambda>c. c \<noteq> NL) f @ c # r" unfolding Cons by simp
  have "NL \<notin> set (takeWhile (\<lambda>c. c \<noteq> NL) f)"
    by (auto dest: set_takeWhileD)
  with assms g f show ?thesis
    by (auto split: if_splits)
qed

lemma NL_not_NUL: "NL \<noteq> NUL"
  by (simp add: NL_def NUL_def)

lemma set_chomp: "set (chomp s) \<subseteq> set s"
  by (auto simp: chomp_def dest: in_set_takeD)

lemma chomp_no_NL: "NL \<notin> set s \<Longrightarrow> chomp s = s"
proof (cases "s = []")
  case True
  then show ?thesis by (simp add: chomp_def)
next
  case False
  assume "NL \<notin> set s"
  moreover from False have "s ! (length s - 1) \<in> set s" by simp
  ultimately have "s ! (length s - 1) \<noteq> NL" by metis
  then show ?thesis by (simp add: chomp_def)
qed

lemma takeWhile_butlast:
  "\<exists>x\<in>set l. \<not> P x \<Longrightarrow> takeWhile P l = takeWhile P (butlast l)"
  by (induction l) auto

lemma chomp_cstr_no_NL:
  assumes "NL \<notin> set (butlast l)"
  shows "NL \<notin> set (chomp (cstr l))"
proof (cases "NUL \<in> set l")
  case True
  then have "\<exists>x\<in>set l. \<not> x \<noteq> NUL" by auto
  from takeWhile_butlast [OF this] have "cstr l = takeWhile (\<lambda>c. c \<noteq> NUL) (butlast l)"
    by (simp add: cstr_def)
  with assms have "NL \<notin> set (cstr l)" by (auto dest: set_takeWhileD)
  with set_chomp show ?thesis by blast
next
  case False
  then have c: "cstr l = l" by (auto simp: cstr_def)
  show ?thesis
  proof (cases "l = []")
    case True
    with c show ?thesis by (simp add: chomp_def)
  next
    case False
    then have l: "l = butlast l @ [last l]" by simp
    show ?thesis
    proof (cases "last l = NL")
      case True
      with False have "chomp l = butlast l"
        by (simp add: chomp_def last_conv_nth butlast_conv_take)
      with assms c show ?thesis by simp
    next
      case False
      with \<open>l \<noteq> []\<close> have "chomp l = l" by (simp add: chomp_def last_conv_nth)
      moreover from assms False l have "NL \<notin> set l"
        by (metis Un_iff empty_iff empty_set set_ConsD set_append)
      ultimately show ?thesis using c by simp
    qed
  qed
qed

lemma take_chomp_cstr:
  assumes "set (take n l) \<subseteq> nucleotides" and "n \<le> length l"
  shows "take n (chomp (cstr l)) = take n l"
proof -
  have nn: "\<forall>c\<in>set (take n l). c \<noteq> NUL \<and> c \<noteq> NL"
    using assms(1) by (auto simp: nucleotides_def NUL_def NL_def)
  have l: "l = take n l @ drop n l" by simp
  have 1: "cstr l = take n l @ cstr (drop n l)"
    unfolding cstr_def by (subst l, subst takeWhile_append2) (use nn in auto)
  have len: "length (take n l) = n" using assms(2) by simp
  have 2: "take n (chomp (cstr l)) = take n (cstr l)"
  proof (cases "cstr (drop n l) = []")
    case True
    with 1 have e: "cstr l = take n l" by simp
    have "chomp (take n l) = take n l"
      using nn by (intro chomp_no_NL) auto
    with e show ?thesis by simp
  next
    case False
    then have "n < length (cstr l)" using 1 len by (metis length_append length_greater_0_conv less_add_same_cancel1)
    then show ?thesis by (auto simp: chomp_def)
  qed
  from 1 2 len show ?thesis by simp
qed

lemma next_kmer_and_line_row_ok:
  assumes "next_kmer_and_line K m = Some (True, m', e)" and "0 < K"
  shows "row_ok K (kmer m', line m')"
proof -
  from assms(1) obtain l rest w where g: "getline (mat m) = Some (l, rest)"
    and k: "K \<le> int (length l)" and c: "copy_kmer (take (nat K) l) [] = Copied w"
    and m': "m' = m\<lparr>kmer := w, line := chomp (cstr l), mat := rest\<rparr>"
    by (auto simp: next_kmer_and_line_def split: option.splits if_splits copied.splits)
  from copy_kmer_Copied [OF c] have w: "w = take (nat K) l" "set (take (nat K) l) \<subseteq> nucleotides"
    by simp_all
  from k assms(2) have n: "nat K \<le> length l" by simp
  from getline_line [OF g] have "NL \<notin> set (butlast l)" by simp
  from chomp_cstr_no_NL [OF this] take_chomp_cstr [OF w(2) n] w n m' show ?thesis
    by (simp add: row_ok_def)
qed

lemma rows_ok: "0 < K \<Longrightarrow> r \<in> set (rows K f) \<Longrightarrow> row_ok K r"
proof (induction K f rule: rows.induct)
  case (1 K f)
  show ?case
  proof (cases "next_kmer_and_line K (fresh f)")
    case None
    with "1.prems" show ?thesis by (simp add: rows.simps [of K f])
  next
    case (Some x)
    obtain h m e where x: "x = (h, m, e)" by (cases x)
    show ?thesis
    proof (cases h)
      case False
      with Some x "1.prems" show ?thesis by (simp add: rows.simps [of K f])
    next
      case True
      with Some x "1.prems" have "r = (kmer m, line m) \<or> r \<in> set (rows K (mat m))"
        by (simp add: rows.simps [of K f])
      then show ?thesis
      proof
        assume "r = (kmer m, line m)"
        with next_kmer_and_line_row_ok [of K "fresh f" m e] Some x True "1.prems"
        show ?thesis by simp
      next
        assume "r \<in> set (rows K (mat m))"
        with "1.IH" [OF Some x [symmetric] refl True "1.prems"(1)] show ?thesis by simp
      qed
    qed
  qed
qed

subsection \<open>The two loops on the records of the files\<close>

text \<open>What a call of the reader for the first matrix does to the variables.\<close>

lemma read_1_rows:
  assumes "read_1 K v = Some v'"
  shows "pending_1 K v' = rows K (mat (matrix_1 v))" "pending_2 K v' = pending_2 K v"
    "outfile v' = outfile v" "matrix_2 v' = matrix_2 v" "has_kmer_2 v' = has_kmer_2 v"
proof -
  from assms obtain h m e where n: "next_kmer_and_line K (matrix_1 v) = Some (h, m, e)"
    and v': "v' = v\<lparr>matrix_1 := m, has_kmer_1 := h, errfile := errfile v @ e\<rparr>"
    by (auto simp: read_1_def split: option.splits)
  from rows_read [OF n] v' show "pending_1 K v' = rows K (mat (matrix_1 v))"
    by (simp add: pending_1_def)
  from v' show "pending_2 K v' = pending_2 K v" "outfile v' = outfile v"
    "matrix_2 v' = matrix_2 v" "has_kmer_2 v' = has_kmer_2 v"
    by (simp_all add: pending_2_def)
qed

lemma read_2_rows:
  assumes "read_2 K v = Some v'"
  shows "pending_2 K v' = rows K (mat (matrix_2 v))" "pending_1 K v' = pending_1 K v"
    "outfile v' = outfile v" "matrix_1 v' = matrix_1 v" "has_kmer_1 v' = has_kmer_1 v"
proof -
  from assms obtain h m e where n: "next_kmer_and_line K (matrix_2 v) = Some (h, m, e)"
    and v': "v' = v\<lparr>matrix_2 := m, has_kmer_2 := h, errfile := errfile v @ e\<rparr>"
    by (auto simp: read_2_def split: option.splits)
  from rows_read [OF n] v' show "pending_2 K v' = rows K (mat (matrix_2 v))"
    by (simp add: pending_2_def)
  from v' show "pending_1 K v' = pending_1 K v" "outfile v' = outfile v"
    "matrix_1 v' = matrix_1 v" "has_kmer_1 v' = has_kmer_1 v"
    by (simp_all add: pending_1_def)
qed

lemma read_1_in_table:
  assumes "in_table K (mat (matrix_1 v))"
  shows "\<exists>v'. read_1 K v = Some v' \<and> (has_kmer_1 v' \<longrightarrow> in_table K (mat (matrix_1 v')))"
  using in_table_read [OF assms] by (auto simp: read_1_def)

lemma read_2_in_table:
  assumes "in_table K (mat (matrix_2 v))"
  shows "\<exists>v'. read_2 K v = Some v' \<and> (has_kmer_2 v' \<longrightarrow> in_table K (mat (matrix_2 v')))"
  using in_table_read [OF assms] by (auto simp: read_2_def)

text \<open>The draining loop writes one row for each record left in the first matrix.\<close>

lemma draining_rows:
  "draining K n v = Some v' \<Longrightarrow>
     outfile v' = outfile v @ concat (map (drained_row n) (pending_1 K v))"
proof (induction K n v rule: draining.induct)
  case (1 K n v)
  show ?case
  proof (cases "has_kmer_1 v")
    case False
    with "1.prems" show ?thesis
      by (simp add: draining.simps [of K n v] pending_1_def)
  next
    case True
    with "1.prems" obtain v1 where s: "draining_step K n v = Some v1"
      and d: "draining K n v1 = Some v'"
      by (auto simp: draining.simps [of K n v] split: option.splits)
    from s have r: "read_1 K
        (fputs [NL] (fputs_zeros n (fputs (first_column (line (matrix_1 v)))
           (fputs '' '' (fputs (kmer (matrix_1 v)) v))))) = Some v1"
      by (simp add: draining_step_def Let_def)
    from read_1_rows(1,3) [OF r]
    have p: "pending_1 K v1 = rows K (mat (matrix_1 v))"
      and o: "outfile v1 = outfile v @ drained_row n (kmer (matrix_1 v), line (matrix_1 v))"
      by (simp_all add: drained_row_def)
    from "1.IH" [OF True s d] p o True show ?thesis
      by (simp add: pending_1_def)
  qed
qed

lemma draining_in_table:
  "(has_kmer_1 v \<longrightarrow> in_table K (mat (matrix_1 v))) \<Longrightarrow> \<exists>v'. draining K n v = Some v'"
proof (induction K n v rule: draining.induct)
  case (1 K n v)
  show ?case
  proof (cases "has_kmer_1 v")
    case False
    then show ?thesis by (simp add: draining.simps [of K n v])
  next
    case True
    let ?w = "fputs [NL] (fputs_zeros n (fputs (first_column (line (matrix_1 v)))
           (fputs '' '' (fputs (kmer (matrix_1 v)) v))))"
    from True "1.prems" have "in_table K (mat (matrix_1 ?w))" by simp
    from read_1_in_table [OF this] obtain v1 where r: "read_1 K ?w = Some v1"
      and t: "has_kmer_1 v1 \<longrightarrow> in_table K (mat (matrix_1 v1))" by blast
    from r have s: "draining_step K n v = Some v1"
      by (simp add: draining_step_def Let_def)
    from "1.IH" [OF True s t] True s show ?thesis
      by (simp add: draining.simps [of K n v])
  qed
qed

text \<open>The two loops together, on the records the two files hold.\<close>

lemma merging_draining_rows:
  assumes "has_kmer_1 v \<longrightarrow> in_table K (mat (matrix_1 v))"
    and "has_kmer_2 v \<longrightarrow> in_table K (mat (matrix_2 v))"
  shows "\<exists>vm v'. merging z K v = Some vm \<and> draining K n vm = Some v'
           \<and> outfile v' = outfile v @ diff_rows (key_cmp z) n (pending_1 K v) (pending_2 K v)"
  using assms
proof (induction z K v rule: merging.induct)
  case (1 z K v)
  show ?case
  proof (cases "has_kmer_1 v \<and> has_kmer_2 v")
    case False
    then have m: "merging z K v = Some v" by (auto simp: merging.simps [of z K v])
    from draining_in_table [of v K n] "1.prems" obtain v' where d: "draining K n v = Some v'"
      by blast
    have "diff_rows (key_cmp z) n (pending_1 K v) (pending_2 K v)
            = concat (map (drained_row n) (pending_1 K v))"
    proof (cases "has_kmer_1 v")
      case True
      with False have "pending_2 K v = []" by (simp add: pending_2_def)
      moreover have "diff_rows (key_cmp z) n ls [] = concat (map (drained_row n) ls)" for ls
        by (induction ls) simp_all
      ultimately show ?thesis by simp
    next
      case False
      then show ?thesis by (simp add: pending_1_def)
    qed
    with m d draining_rows [OF d] show ?thesis by simp
  next
    case True
    then have h1: "has_kmer_1 v" and h2: "has_kmer_2 v" by simp_all
    with "1.prems" have t1: "in_table K (mat (matrix_1 v))" and t2: "in_table K (mat (matrix_2 v))"
      by simp_all
    let ?l = "(kmer (matrix_1 v), line (matrix_1 v))" and ?r = "(kmer (matrix_2 v), line (matrix_2 v))"
    have p1: "pending_1 K v = ?l # rows K (mat (matrix_1 v))"
      and p2: "pending_2 K v = ?r # rows K (mat (matrix_2 v))"
      using h1 h2 by (simp_all add: pending_1_def pending_2_def)
    define c where "c = key_cmp z (kmer (matrix_1 v)) (kmer (matrix_2 v))"
    have "\<exists>vs. merging_step z K v = Some vs
            \<and> (has_kmer_1 vs \<longrightarrow> in_table K (mat (matrix_1 vs)))
            \<and> (has_kmer_2 vs \<longrightarrow> in_table K (mat (matrix_2 vs)))
            \<and> outfile v @ diff_rows (key_cmp z) n (pending_1 K v) (pending_2 K v)
                = outfile vs @ diff_rows (key_cmp z) n (pending_1 K vs) (pending_2 K vs)"
    proof -
      consider "c = 0" | "c < 0" | "0 < c" by linarith
      then show ?thesis
      proof cases
        case 1
        from read_1_in_table [OF t1] obtain v1 where r1: "read_1 K v = Some v1"
          and i1: "has_kmer_1 v1 \<longrightarrow> in_table K (mat (matrix_1 v1))" by blast
        from read_1_rows [OF r1] t2 have "in_table K (mat (matrix_2 v1))" by simp
        from read_2_in_table [OF this] obtain v2 where r2: "read_2 K v1 = Some v2"
          and i2: "has_kmer_2 v2 \<longrightarrow> in_table K (mat (matrix_2 v2))" by blast
        from 1 r1 r2 have s: "merging_step z K v = Some (fputs [NL] v2)"
          by (simp add: merging_step_def c_def)
        from read_1_rows [OF r1] read_2_rows [OF r2] i1 i2 1 p1 p2 s show ?thesis
          by (simp add: c_def)
      next
        case 2
        from t1 have "in_table K (mat (matrix_1 (fputs (line (matrix_1 v)) v)))" by simp
        from read_1_in_table [OF this] obtain v1
          where r1: "read_1 K (fputs (line (matrix_1 v)) v) = Some v1"
          and i1: "has_kmer_1 v1 \<longrightarrow> in_table K (mat (matrix_1 v1))" by blast
        from 2 r1 have s: "merging_step z K v = Some (fputs [NL] v1)"
          by (simp add: merging_step_def c_def)
        from read_1_rows [OF r1] i1 2 p1 p2 s t2 h2 show ?thesis
          by (simp add: c_def)
      next
        case 3
        from read_2_in_table [OF t2] obtain v2 where r2: "read_2 K v = Some v2"
          and i2: "has_kmer_2 v2 \<longrightarrow> in_table K (mat (matrix_2 v2))" by blast
        from 3 r2 have s: "merging_step z K v = Some (fputs [NL] v2)"
          by (simp add: merging_step_def c_def)
        from read_2_rows [OF r2] i2 3 p1 p2 s t1 h1 show ?thesis
          by (simp add: c_def)
      qed
    qed
    then obtain vs where s: "merging_step z K v = Some vs"
      and i: "has_kmer_1 vs \<longrightarrow> in_table K (mat (matrix_1 vs))"
             "has_kmer_2 vs \<longrightarrow> in_table K (mat (matrix_2 vs))"
      and o: "outfile v @ diff_rows (key_cmp z) n (pending_1 K v) (pending_2 K v)
                = outfile vs @ diff_rows (key_cmp z) n (pending_1 K vs) (pending_2 K vs)"
      by blast
    from "1.IH" [OF True s i] s True o show ?thesis
      by (simp add: merging.simps [of z K v])
  qed
qed

lemma count_tokens_length:
  "count_tokens toks first n = n + (if first then length toks - 1 else length toks)"
  by (induction toks first n rule: count_tokens.induct) auto

lemma samples_number_tokens: "samples_number l = length (strtok_all l) - 1"
  by (simp add: samples_number_def count_tokens_length)

lemma in_table_fresh_read:
  assumes "in_table K f"
  shows "\<exists>h m e. next_kmer_and_line K (fresh f) = Some (h, m, e) \<and> (h \<longrightarrow> in_table K (mat m))"
  using in_table_read [of K "fresh f"] assms by (simp add: fresh_def)

lemma pending_errfile [simp]:
  "pending_1 K (v\<lparr>errfile := x\<rparr>) = pending_1 K v"
  "pending_2 K (v\<lparr>errfile := x\<rparr>) = pending_2 K v"
  by (simp_all add: pending_1_def pending_2_def)

lemma km_diff_init_rows:
  assumes "km_diff_init K f1 f2 = Some (v0, n2)"
  shows "n2 = Width K f2 \<and> pending_1 K v0 = rows K f1 \<and> pending_2 K v0 = rows K f2
           \<and> outfile v0 = []"
proof -
  let ?v = "\<lparr>matrix_1 = fresh f1, has_kmer_1 = False, matrix_2 = fresh f2, has_kmer_2 = False,
              outfile = [], errfile = []\<rparr>"
  from assms obtain v1 where r1: "read_1 K ?v = Some v1"
    by (auto simp: km_diff_init_def Let_def split: option.splits)
  let ?w = "v1\<lparr>errfile := errfile v1 @ ''[info] samples in 1st matrix: ''
              @ show_nat (if has_kmer_1 v1 then samples_number (line (matrix_1 v1)) else 0) @ [NL]\<rparr>"
  from assms r1 obtain v2 where r2: "read_2 K ?w = Some v2"
    by (auto simp: km_diff_init_def Let_def split: option.splits)
  from assms r1 r2 have n: "n2 = (if has_kmer_2 v2 then samples_number (line (matrix_2 v2)) else 0)"
    and v0: "v0 = v2\<lparr>errfile := errfile v2 @ ''[info] samples in 2nd matrix: ''
              @ show_nat n2 @ [NL]\<rparr>"
    by (auto simp: km_diff_init_def Let_def split: option.splits)
  from read_1_rows [OF r1] have a: "pending_1 K v1 = rows K f1" "outfile v1 = []"
    "matrix_2 v1 = fresh f2"
    by (simp_all add: fresh_def)
  then have b: "pending_1 K ?w = rows K f1" "outfile ?w = []" "mat (matrix_2 ?w) = f2"
    by (simp_all add: fresh_def)
  from read_2_rows [OF r2] b have c: "pending_2 K v2 = rows K f2" "pending_1 K v2 = rows K f1"
    "outfile v2 = []" by simp_all
  from c v0 have d: "pending_1 K v0 = rows K f1" "pending_2 K v0 = rows K f2" "outfile v0 = []"
    by simp_all
  from c(1) [symmetric] n have "n2 = Width K f2"
    by (simp add: Width_def pending_2_def samples_number_tokens)
  with d show ?thesis by simp
qed

lemma km_diff_init_in_table:
  assumes "in_table K f1" and "in_table K f2"
  shows "\<exists>v0 n2. km_diff_init K f1 f2 = Some (v0, n2)
           \<and> (has_kmer_1 v0 \<longrightarrow> in_table K (mat (matrix_1 v0)))
           \<and> (has_kmer_2 v0 \<longrightarrow> in_table K (mat (matrix_2 v0)))"
proof -
  let ?v = "\<lparr>matrix_1 = fresh f1, has_kmer_1 = False, matrix_2 = fresh f2, has_kmer_2 = False,
              outfile = [], errfile = []\<rparr>"
  from assms(1) have "in_table K (mat (matrix_1 ?v))" by (simp add: fresh_def)
  from read_1_in_table [OF this] obtain v1 where r1: "read_1 K ?v = Some v1"
    and i1: "has_kmer_1 v1 \<longrightarrow> in_table K (mat (matrix_1 v1))" by blast
  let ?w = "v1\<lparr>errfile := errfile v1 @ ''[info] samples in 1st matrix: ''
              @ show_nat (if has_kmer_1 v1 then samples_number (line (matrix_1 v1)) else 0) @ [NL]\<rparr>"
  from read_1_rows(4) [OF r1] assms(2) have "in_table K (mat (matrix_2 ?w))" by (simp add: fresh_def)
  from read_2_in_table [OF this] obtain v2 where r2: "read_2 K ?w = Some v2"
    and i2: "has_kmer_2 v2 \<longrightarrow> in_table K (mat (matrix_2 v2))" by blast
  from read_2_rows(4,5) [OF r2] i1 have i1': "has_kmer_1 v2 \<longrightarrow> in_table K (mat (matrix_1 v2))"
    by simp
  from r1 r2 i1' i2 show ?thesis
    by (simp add: km_diff_init_def Let_def)
qed

lemma km_diff_rows:
  assumes "in_table K f1" and "in_table K f2"
  shows "\<exists>v. km_diff z K f1 f2 = Some v
           \<and> outfile v = diff_rows (key_cmp z) (Width K f2) (rows K f1) (rows K f2)"
proof -
  from km_diff_init_in_table [OF assms] obtain v0 n2 where i: "km_diff_init K f1 f2 = Some (v0, n2)"
    and t: "has_kmer_1 v0 \<longrightarrow> in_table K (mat (matrix_1 v0))"
           "has_kmer_2 v0 \<longrightarrow> in_table K (mat (matrix_2 v0))" by blast
  from merging_draining_rows [OF t, of z n2] obtain vm v' where
    m: "merging z K v0 = Some vm" and d: "draining K n2 vm = Some v'"
    and o: "outfile v' = outfile v0 @ diff_rows (key_cmp z) n2 (pending_1 K v0) (pending_2 K v0)"
    by blast
  from km_diff_init_rows [OF i] i m d o show ?thesis
    by (simp add: km_diff_def)
qed

lemma merging_ends:
  "merging z K v = Some vm \<Longrightarrow> \<not> (has_kmer_1 vm \<and> has_kmer_2 vm)"
proof (induction z K v rule: merging.induct)
  case (1 z K v)
  show ?case
  proof (cases "has_kmer_1 v \<and> has_kmer_2 v")
    case False
    with "1.prems" have "vm = v" by (auto simp: merging.simps [of z K v])
    with False show ?thesis by simp
  next
    case True
    with "1.prems" obtain vs where s: "merging_step z K v = Some vs" and m: "merging z K vs = Some vm"
      by (auto simp: merging.simps [of z K v] split: option.splits)
    from "1.IH" [OF True s m] show ?thesis .
  qed
qed

subsection \<open>The order of the keys\<close>

lemma strcmp_Nil: "strcmp [] [] = 0"
  by (simp add: strcmp.simps [of "[]"] deref_def)

lemma strcmp_Cons:
  "x \<noteq> NUL \<Longrightarrow> strcmp (x # xs) (y # ys)
     = (if x = y then strcmp xs ys else int (uchar x) - int (uchar y))"
  by (subst strcmp.simps) (simp add: deref_def)

text \<open>
  A comparison that returns the difference of two weights at the first position where
  two lists of equal length differ orders these lists, when the weight is injective.
\<close>

lemma first_difference_eq:
  fixes cmp :: "string \<Rightarrow> string \<Rightarrow> int" and w :: "char \<Rightarrow> int"
  assumes step: "\<And>x xs y ys. x \<in> A \<Longrightarrow> cmp (x # xs) (y # ys) = (if x = y then cmp xs ys else w x - w y)"
    and nil: "cmp [] [] = 0" and inj: "inj_on w A"
  shows "length a = length b \<Longrightarrow> set a \<subseteq> A \<Longrightarrow> set b \<subseteq> A \<Longrightarrow>
           (cmp a b = 0 \<longleftrightarrow> a = b) \<and> (0 < cmp a b \<longleftrightarrow> cmp b a < 0)"
proof (induction a b rule: list_induct2)
  case Nil
  show ?case by (simp add: nil)
next
  case (Cons x xs y ys)
  then have x: "x \<in> A" and y: "y \<in> A" by simp_all
  from inj x y have "w x = w y \<longleftrightarrow> x = y" by (auto dest: inj_onD)
  with Cons x y show ?case by (auto simp: step)
qed

lemma first_difference_trans:
  fixes cmp :: "string \<Rightarrow> string \<Rightarrow> int" and w :: "char \<Rightarrow> int"
  assumes step: "\<And>x xs y ys. x \<in> A \<Longrightarrow> cmp (x # xs) (y # ys) = (if x = y then cmp xs ys else w x - w y)"
    and nil: "cmp [] [] = 0" and inj: "inj_on w A"
  shows "length a = length b \<Longrightarrow> length b = length c \<Longrightarrow> set a \<subseteq> A \<Longrightarrow> set b \<subseteq> A \<Longrightarrow> set c \<subseteq> A \<Longrightarrow>
           cmp a b < 0 \<Longrightarrow> cmp b c \<le> 0 \<Longrightarrow> cmp a c < 0"
proof (induction a b c rule: list_induct3)
  case Nil
  then show ?case by (simp add: nil)
next
  case (Cons x xs y ys z zs)
  then have x: "x \<in> A" and y: "y \<in> A" and z: "z \<in> A" by simp_all
  from inj x y z have e: "w x = w y \<longleftrightarrow> x = y" "w y = w z \<longleftrightarrow> y = z" "w x = w z \<longleftrightarrow> x = z"
    by (auto dest: inj_onD)
  from Cons.prems(4,5) x y z have
    ab: "if x = y then cmp xs ys < 0 else w x < w y" and bc: "if y = z then cmp ys zs \<le> 0 else w y < w z"
    using e by (auto simp: step split: if_splits)
  show ?case
  proof (cases "x = z")
    case True
    show ?thesis
    proof (cases "x = y")
      case True
      with \<open>x = z\<close> ab bc Cons.IH Cons.prems x show ?thesis by (simp add: step)
    next
      case False
      with \<open>x = z\<close> ab bc show ?thesis by (auto split: if_splits)
    qed
  next
    case False
    with ab bc e have "w x < w z" by (auto split: if_splits)
    with False x show ?thesis by (simp add: step)
  qed
qed

lemma inj_on_n2kt_at: "inj_on n2kt_at ACGT"
  using n2kt_at_all by (auto simp: inj_on_def ACGT_def)

lemma inj_uchar: "inj_on (\<lambda>c. int (uchar c)) nucleotides"
  by (auto simp: inj_on_def uchar_def)

lemma ktcmp_step:
  "x \<in> ACGT \<Longrightarrow> ktcmp (x # xs) (y # ys) = (if x = y then ktcmp xs ys else n2kt_at x - n2kt_at y)"
  by (simp add: ktcmp_Cons ACGT_not_NUL)

lemma strcmp_step:
  "x \<in> nucleotides \<Longrightarrow> strcmp (x # xs) (y # ys)
     = (if x = y then strcmp xs ys else int (uchar x) - int (uchar y))"
  by (simp add: strcmp_Cons nucleotides_not_NUL)

lemma key_cmp_order:
  assumes "a \<in> key_domain z K" and "b \<in> key_domain z K"
  shows "(key_cmp z a b = 0 \<longleftrightarrow> a = b) \<and> (0 < key_cmp z a b \<longleftrightarrow> key_cmp z b a < 0)"
proof -
  from assms have l: "length a = length b" by (simp add: key_domain_def)
  show ?thesis
  proof (cases z)
    case True
    with assms have s: "set a \<subseteq> ACGT" "set b \<subseteq> ACGT" by (simp_all add: key_domain_def)
    from first_difference_eq [of ACGT ktcmp n2kt_at, OF ktcmp_step ktcmp_Nil inj_on_n2kt_at l s]
      True
    show ?thesis by (simp add: key_cmp_def)
  next
    case False
    with assms have s: "set a \<subseteq> nucleotides" "set b \<subseteq> nucleotides" by (simp_all add: key_domain_def)
    from first_difference_eq [of nucleotides strcmp "\<lambda>c. int (uchar c)", OF strcmp_step strcmp_Nil inj_uchar l s]
      False
    show ?thesis by (simp add: key_cmp_def)
  qed
qed

lemma key_cmp_trans:
  assumes "a \<in> key_domain z K" and "b \<in> key_domain z K" and "c \<in> key_domain z K"
    and "key_cmp z a b < 0" and "key_cmp z b c \<le> 0"
  shows "key_cmp z a c < 0"
proof -
  from assms have l: "length a = length b" "length b = length c" by (simp_all add: key_domain_def)
  show ?thesis
  proof (cases z)
    case True
    with assms have s: "set a \<subseteq> ACGT" "set b \<subseteq> ACGT" "set c \<subseteq> ACGT" by (simp_all add: key_domain_def)
    from first_difference_trans [of ACGT ktcmp n2kt_at, OF ktcmp_step ktcmp_Nil inj_on_n2kt_at l s]
      True assms(4,5)
    show ?thesis by (simp add: key_cmp_def)
  next
    case False
    with assms have s: "set a \<subseteq> nucleotides" "set b \<subseteq> nucleotides" "set c \<subseteq> nucleotides"
      by (simp_all add: key_domain_def)
    from first_difference_trans [of nucleotides strcmp "\<lambda>c. int (uchar c)", OF strcmp_step strcmp_Nil inj_uchar l s]
      False assms(4,5)
    show ?thesis by (simp add: key_cmp_def)
  qed
qed

subsection \<open>The keys of the rows written\<close>

lemma first_column_subset: "set (first_column l) \<subseteq> set l"
  unfolding first_column_def by (meson set_dropWhileD subsetI)

lemma zeros_no_NL: "NL \<notin> set (concat (replicate n '' 0''))"
  by (induction n) (simp_all add: NL_def)

lemma nucleotides_no_NL: "NL \<notin> nucleotides"
  by (simp add: nucleotides_def NL_def)

lemma emitted_keys_drained_row:
  assumes "row_ok K r" and "0 < K"
  shows "emitted_keys K (drained_row n r @ s) = fst r # emitted_keys K s"
proof -
  let ?t = "fst r @ '' '' @ first_column (snd r) @ concat (replicate n '' 0'')"
  from assms(1) have k: "length (fst r) = nat K" "set (fst r) \<subseteq> nucleotides" "NL \<notin> set (snd r)"
    by (simp_all add: row_ok_def)
  from k(2) nucleotides_no_NL have "NL \<notin> set (fst r)" by blast
  moreover from k(3) first_column_subset [of "snd r"] have "NL \<notin> set (first_column (snd r))" by blast
  ultimately have "NL \<notin> set ?t" using zeros_no_NL [of n] by (simp add: NL_def)
  moreover have "?t \<noteq> []" by simp
  ultimately have "emitted_keys K (?t @ NL # s) = take (nat K) ?t # emitted_keys K s"
    by (rule emitted_keys_row)
  moreover have "take (nat K) ?t = fst r" using k(1) by simp
  moreover have "drained_row n r @ s = ?t @ NL # s" by (simp add: drained_row_def)
  ultimately show ?thesis by simp
qed

lemma emitted_keys_line:
  assumes "row_ok K r" and "0 < K"
  shows "emitted_keys K (snd r @ NL # s) = fst r # emitted_keys K s"
proof -
  from assms have k: "take (nat K) (snd r) = fst r" "NL \<notin> set (snd r)" "length (fst r) = nat K"
    by (simp_all add: row_ok_def)
  from k(1,3) assms(2) have "snd r \<noteq> []" by auto
  from emitted_keys_row [OF k(2) this] k(1) show ?thesis by simp
qed

lemma diff_rows_keys:
  assumes "0 < K"
    and "\<forall>r \<in> set ls \<union> set rs. row_ok K r \<and> fst r \<in> key_domain z K"
    and "sorted_wrt (\<lambda>a b. key_cmp z a b < 0) (map fst ls)"
    and "sorted_wrt (\<lambda>a b. key_cmp z a b \<le> 0) (map fst rs)"
  shows "emitted_keys K (diff_rows (key_cmp z) n ls rs)
           = filter (\<lambda>k. k \<notin> fst ` set rs) (map fst ls)"
  using assms(2-)
proof (induction "key_cmp z" n ls rs rule: diff_rows.induct)
  case (1 n rs)
  show ?case by simp
next
  case (2 n l ls)
  then have "emitted_keys K (diff_rows (key_cmp z) n ls []) = map fst ls" by simp
  moreover from 2 have "row_ok K l" by simp
  ultimately show ?case using emitted_keys_drained_row [OF _ assms(1)] by simp
next
  case (3 n l ls r rs)
  from "3.prems"(1) have ok: "row_ok K l" "row_ok K r"
    and dl: "fst l \<in> key_domain z K" and dr: "fst r \<in> key_domain z K"
    and dls: "\<forall>x\<in>set ls. fst x \<in> key_domain z K" and drs: "\<forall>x\<in>set rs. fst x \<in> key_domain z K"
    and rest: "\<forall>x\<in>set ls \<union> set rs. row_ok K x \<and> fst x \<in> key_domain z K"
      "\<forall>x\<in>set ls \<union> set (r # rs). row_ok K x \<and> fst x \<in> key_domain z K"
      "\<forall>x\<in>set (l # ls) \<union> set rs. row_ok K x \<and> fst x \<in> key_domain z K"
    by auto
  from "3.prems"(2) have sl: "\<forall>x\<in>set ls. key_cmp z (fst l) (fst x) < 0"
    and sls: "sorted_wrt (\<lambda>a b. key_cmp z a b < 0) (map fst ls)" by auto
  from "3.prems"(3) have sr: "\<forall>x\<in>set rs. key_cmp z (fst r) (fst x) \<le> 0"
    and srs: "sorted_wrt (\<lambda>a b. key_cmp z a b \<le> 0) (map fst rs)" by auto
  have ne: "key_cmp z a b < 0 \<Longrightarrow> a \<noteq> b" if "a \<in> key_domain z K" "b \<in> key_domain z K" for a b
    using key_cmp_order [OF that] by auto
  consider (eq) "key_cmp z (fst l) (fst r) = 0" | (lt) "key_cmp z (fst l) (fst r) < 0"
    | (gt) "0 < key_cmp z (fst l) (fst r)" by linarith
  then show ?case
  proof cases
    case eq
    with key_cmp_order [OF dl dr] have e: "fst l = fst r" by simp
    have "\<forall>x\<in>set ls. fst x \<noteq> fst r"
      using sl dls ne [OF dl] e by metis
    then have f: "filter (\<lambda>k. k \<notin> fst ` set (r # rs)) (map fst ls)
                  = filter (\<lambda>k. k \<notin> fst ` set rs) (map fst ls)"
      by (intro filter_cong) auto
    from "3.hyps"(1) [OF eq rest(1) sls srs] eq e f show ?thesis by simp
  next
    case lt
    have "\<forall>x\<in>set rs. fst l \<noteq> fst x"
    proof
      fix x assume x: "x \<in> set rs"
      with drs sr have "fst x \<in> key_domain z K" "key_cmp z (fst r) (fst x) \<le> 0" by simp_all
      from key_cmp_trans [OF dl dr this(1) lt this(2)] ne [OF dl this(1)]
      show "fst l \<noteq> fst x" by simp
    qed
    moreover from ne [OF dl dr lt] have "fst l \<noteq> fst r" .
    ultimately have n: "fst l \<notin> fst ` set (r # rs)" by auto
    from lt have c: "key_cmp z (fst l) (fst r) \<noteq> 0" by simp
    from "3.hyps"(2) [OF c lt rest(2) sls "3.prems"(3)] lt c n emitted_keys_line [OF ok(1) assms(1)]
    show ?thesis by simp
  next
    case gt
    with key_cmp_order [OF dl dr] have rl: "key_cmp z (fst r) (fst l) < 0" by simp
    have "\<forall>x\<in>set (l # ls). fst x \<noteq> fst r"
    proof
      fix x assume "x \<in> set (l # ls)"
      then consider "x = l" | "x \<in> set ls" by auto
      then show "fst x \<noteq> fst r"
      proof cases
        case 1
        with ne [OF dr dl rl] show ?thesis by simp
      next
        case 2
        with dls sl have "fst x \<in> key_domain z K" "key_cmp z (fst l) (fst x) \<le> 0" by force+
        from key_cmp_trans [OF dr dl this(1) rl this(2)] ne [OF dr this(1)] show ?thesis by force
      qed
    qed
    then have f: "filter (\<lambda>k. k \<notin> fst ` set (r # rs)) (map fst (l # ls))
                  = filter (\<lambda>k. k \<notin> fst ` set rs) (map fst (l # ls))"
      by (intro filter_cong) auto
    from gt have c: "key_cmp z (fst l) (fst r) \<noteq> 0" "\<not> key_cmp z (fst l) (fst r) < 0" by simp_all
    from "3.hyps"(3) [OF c rest(3) "3.prems"(2) srs] c f show ?thesis by simp
  qed
qed

subsection \<open>The end-to-end example\<close>

text \<open>
  Claim C2 says that with K=3 and the lexicographic order, on the left input
  \<^verbatim>\<open>AAA 1 2\<close>, \<^verbatim>\<open>AAC 0 1\<close>, \<^verbatim>\<open>TTT 3 3\<close> and the right input \<^verbatim>\<open>AAC 5 5\<close>, \<^verbatim>\<open>GGG 0 0\<close>, the
  output is exactly the two lines \<^verbatim>\<open>AAA 1 2\<close> and \<^verbatim>\<open>TTT 3 3 0 0\<close>.  The program writes
  four lines: between the two rows stand two empty lines, the newline of line 178 for
  the iteration that drops \<^verbatim>\<open>AAC\<close> and for the one that skips \<^verbatim>\<open>GGG\<close>.
\<close>

theorem P6_output_has_empty_lines:
  "main env_P6 [''-k'', ''3'', ''left'', ''right'']
     = Some \<lparr>ending = Returned 0,
             to_stdout = ''AAA 1 2'' @ [NL] @ [NL] @ [NL] @ ''TTT 3 3 0 0'' @ [NL],
             to_stderr = ''[info] samples in 1st matrix: 2'' @ [NL]
                           @ ''[info] samples in 2nd matrix: 2'' @ [NL],
             to_file = None, fopened = [''left'', ''right'']\<rparr>"
  by code_simp

theorem P6_output_has_empty_lines_witness:
  "map_option to_stdout (main env_P6 [''-k'', ''3'', ''left'', ''right''])
     = Some (''AAA 1 2'' @ [NL] @ [NL] @ [NL] @ ''TTT 3 3 0 0'' @ [NL])"
  using P6_output_has_empty_lines by simp

subsection \<open>What an iteration of the merging loop writes\<close>

text \<open>
  Claim C3 says that an iteration of the merging loop in which the keys compare equal,
  or in which the left key compares greater, writes nothing, so that the output after
  it is the output before it.  Either iteration appends one newline to the output: the
  \<^verbatim>\<open>fputc\<close> of line 178 stands after the three branches, not inside the branch that
  writes the left row.
\<close>

theorem merging_step_without_row_writes_newline:
  assumes "merging_step z K v = Some v'"
    and "0 \<le> key_cmp z (kmer (matrix_1 v)) (kmer (matrix_2 v))"
  shows "outfile v' = outfile v @ [NL] \<and> outfile v' \<noteq> outfile v"
  using assms
  by (auto simp: merging_step_def Let_def read_1_def read_2_def fputs_def
           split: if_splits option.splits)

lemma merging_step_vars_AAC:
  "merging_step False 3 vars_AAC
     = Some \<lparr>matrix_1 = \<lparr>kmer = ''TTT'', line = ''TTT 3 3'', mat = []\<rparr>, has_kmer_1 = True,
             matrix_2 = \<lparr>kmer = ''GGG'', line = ''GGG 0 0'', mat = []\<rparr>, has_kmer_2 = True,
             outfile = ''AAA 1 2'' @ [NL] @ [NL], errfile = []\<rparr>"
  by code_simp

lemma key_cmp_AAC: "key_cmp False ''AAC'' ''AAC'' = 0"
  by code_simp

theorem merging_step_without_row_writes_newline_witness:
  "merging_step False 3 vars_AAC
     = Some \<lparr>matrix_1 = \<lparr>kmer = ''TTT'', line = ''TTT 3 3'', mat = []\<rparr>, has_kmer_1 = True,
             matrix_2 = \<lparr>kmer = ''GGG'', line = ''GGG 0 0'', mat = []\<rparr>, has_kmer_2 = True,
             outfile = ''AAA 1 2'' @ [NL] @ [NL], errfile = []\<rparr>
   \<and> 0 \<le> key_cmp False (kmer (matrix_1 vars_AAC)) (kmer (matrix_2 vars_AAC))
   \<and> ''AAA 1 2'' @ [NL] @ [NL] = outfile vars_AAC @ [NL]
   \<and> ''AAA 1 2'' @ [NL] @ [NL] \<noteq> outfile vars_AAC"
proof -
  have k: "0 \<le> key_cmp False (kmer (matrix_1 vars_AAC)) (kmer (matrix_2 vars_AAC))"
    by (simp add: vars_AAC_def key_cmp_AAC)
  from merging_step_without_row_writes_newline [OF merging_step_vars_AAC k] k
  show ?thesis by (simp add: merging_step_vars_AAC)
qed

subsection \<open>The selector of the key order\<close>

lemma opt_kind_koh: "opt_kind ''k:o:h'' c \<noteq> None \<Longrightarrow> c = CHR ''k'' \<or> c = CHR ''o'' \<or> c = CHR ''h''"
  by (simp add: opt_kind_def split: if_splits)

lemma getopt_all_returns:
  "(c, a) \<in> set (fst (getopt_all posix optstring cluster args)) \<Longrightarrow>
     c = CHR ''?'' \<or> opt_kind optstring c \<noteq> None"
  by (induction posix optstring cluster args rule: getopt_all.induct)
     (auto split: if_splits prod.splits option.splits bool.splits list.splits)

lemma scan_options_use_ktcmp:
  "scan_options got opts = Inr opts' \<Longrightarrow> \<forall>(c, a) \<in> set got. c \<noteq> CHR ''z'' \<Longrightarrow>
     use_ktcmp opts' = use_ktcmp opts"
  by (induction got opts rule: scan_options.induct) (auto split: if_splits)

lemma parse_command_line_use_ktcmp:
  assumes "parse_command_line e args = Inr (opts, rest)"
  shows "\<not> use_ktcmp opts"
proof -
  obtain got rest' where g: "getopt_all (posixly_correct e) ''k:o:h'' [] args = (got, rest')"
    by (cases "getopt_all (posixly_correct e) ''k:o:h'' [] args")
  have "\<forall>(c, a) \<in> set got. c \<noteq> CHR ''z''"
  proof (clarify)
    fix a assume "(CHR ''z'', a) \<in> set got"
    with g have "(CHR ''z'', a) \<in> set (fst (getopt_all (posixly_correct e) ''k:o:h'' [] args))"
      by simp
    from getopt_all_returns [OF this] opt_kind_koh [of "CHR ''z''"] show False by auto
  qed
  moreover from assms g
  have "scan_options got \<lparr>ksize = 31, out_fname = None, use_ktcmp = False, help_opt = False\<rparr> = Inr opts"
    by (simp add: parse_command_line_def split: sum.splits)
  ultimately show ?thesis
    using scan_options_use_ktcmp by fastforce
qed

text \<open>
  Claim C7 says that some accepted configuration makes the merge compare the keys in
  the order A<C<T<G.  The usage text documents option \<^verbatim>\<open>-z\<close> for it and the \<^verbatim>\<open>switch\<close>
  has its case, but the option string \<^verbatim>\<open>"k:o:h"\<close> passed to \<^verbatim>\<open>getopt\<close> lacks the
  letter: a command line that starts with \<^verbatim>\<open>-z\<close> makes \<^verbatim>\<open>main\<close> return 1 before anything
  is opened, and no command line whose options are accepted sets \<^verbatim>\<open>use_ktcmp\<close>.
\<close>

theorem option_z_is_not_accepted:
  "main e (''-z'' # args)
     = Some \<lparr>ending = Returned 1, to_stdout = [], to_stderr = [], to_file = None, fopened = []\<rparr>
   \<and> (parse_command_line e args = Inr (opts, rest) \<longrightarrow> \<not> use_ktcmp opts)"
proof
  show "main e (''-z'' # args)
     = Some \<lparr>ending = Returned 1, to_stdout = [], to_stderr = [], to_file = None, fopened = []\<rparr>"
    by (simp add: main_def parse_command_line_def opt_kind_def deref_def split: prod.splits)
  show "parse_command_line e args = Inr (opts, rest) \<longrightarrow> \<not> use_ktcmp opts"
    using parse_command_line_use_ktcmp by blast
qed

lemma parse_command_line_P6:
  "parse_command_line env_P6 [''-k'', ''3'', ''left'', ''right'']
     = Inr (\<lparr>ksize = 3, out_fname = None, use_ktcmp = False, help_opt = False\<rparr>, [''left'', ''right''])"
  by code_simp

theorem option_z_is_not_accepted_witness:
  "main env_P6 [''-z'', ''-k'', ''3'', ''left'', ''right'']
     = Some \<lparr>ending = Returned 1, to_stdout = [], to_stderr = [], to_file = None, fopened = []\<rparr>
   \<and> parse_command_line env_P6 [''-k'', ''3'', ''left'', ''right'']
     = Inr (\<lparr>ksize = 3, out_fname = None, use_ktcmp = False, help_opt = False\<rparr>, [''left'', ''right''])
   \<and> \<not> use_ktcmp \<lparr>ksize = 3, out_fname = None, use_ktcmp = False, help_opt = False\<rparr>"
  using option_z_is_not_accepted [of env_P6 "[''-k'', ''3'', ''left'', ''right'']"
          "\<lparr>ksize = 3, out_fname = None, use_ktcmp = False, help_opt = False\<rparr>" "[''left'', ''right'']"]
        parse_command_line_P6
  by simp

subsection \<open>The two phases of a run\<close>

lemma merging_step_pending:
  assumes "merging_step z K v = Some vs" and "has_kmer_1 v"
  shows "pending_1 K v = pending_1 K vs
       \<or> pending_1 K v = (kmer (matrix_1 v), line (matrix_1 v)) # pending_1 K vs"
proof -
  define c where "c = key_cmp z (kmer (matrix_1 v)) (kmer (matrix_2 v))"
  have p: "pending_1 K v = (kmer (matrix_1 v), line (matrix_1 v)) # rows K (mat (matrix_1 v))"
    using assms(2) by (simp add: pending_1_def)
  consider "c = 0" | "c < 0" | "0 < c" by linarith
  then show ?thesis
  proof cases
    case 1
    with assms(1) obtain v1 v2 where r1: "read_1 K v = Some v1" and r2: "read_2 K v1 = Some v2"
      and vs: "vs = fputs [NL] v2"
      by (auto simp: merging_step_def c_def split: option.splits)
    from read_1_rows(1) [OF r1] read_2_rows(2) [OF r2] vs p show ?thesis by simp
  next
    case 2
    with assms(1) obtain v1 where r1: "read_1 K (fputs (line (matrix_1 v)) v) = Some v1"
      and vs: "vs = fputs [NL] v1"
      by (auto simp: merging_step_def c_def split: option.splits)
    from read_1_rows(1) [OF r1] vs p show ?thesis by simp
  next
    case 3
    with assms(1) obtain v2 where r2: "read_2 K v = Some v2" and vs: "vs = fputs [NL] v2"
      by (auto simp: merging_step_def c_def split: option.splits)
    from read_2_rows(2) [OF r2] vs show ?thesis by simp
  qed
qed

lemma merging_pending_suffix:
  "merging z K v = Some vm \<Longrightarrow> \<exists>pre. pending_1 K v = pre @ pending_1 K vm"
proof (induction z K v rule: merging.induct)
  case (1 z K v)
  show ?case
  proof (cases "has_kmer_1 v \<and> has_kmer_2 v")
    case False
    with "1.prems" have "vm = v" by (auto simp: merging.simps [of z K v])
    then show ?thesis by simp
  next
    case True
    with "1.prems" obtain vs where s: "merging_step z K v = Some vs" and m: "merging z K vs = Some vm"
      by (auto simp: merging.simps [of z K v] split: option.splits)
    from "1.IH" [OF True s m] obtain pre where pre: "pending_1 K vs = pre @ pending_1 K vm" by blast
    from merging_step_pending [OF s] True
    have "pending_1 K v = pending_1 K vs
       \<or> pending_1 K v = (kmer (matrix_1 v), line (matrix_1 v)) # pending_1 K vs" by simp
    then show ?thesis
    proof
      assume "pending_1 K v = pending_1 K vs"
      with pre show ?thesis by auto
    next
      assume "pending_1 K v = (kmer (matrix_1 v), line (matrix_1 v)) # pending_1 K vs"
      with pre have "pending_1 K v = ((kmer (matrix_1 v), line (matrix_1 v)) # pre) @ pending_1 K vm"
        by simp
      then show ?thesis by blast
    qed
  qed
qed

lemma km_diff_phases:
  assumes "in_table K f1" and "in_table K f2"
  shows "\<exists>v0 vm v pre.
           km_diff_init K f1 f2 = Some (v0, Width K f2) \<and> merging z K v0 = Some vm
         \<and> km_diff z K f1 f2 = Some v
         \<and> (has_kmer_1 vm \<longrightarrow> \<not> has_kmer_2 vm)
         \<and> rows K f1 = pre @ pending_1 K vm
         \<and> outfile v = outfile vm @ concat (map (drained_row (Width K f2)) (pending_1 K vm))"
proof -
  from km_diff_init_in_table [OF assms] obtain v0 n2 where i: "km_diff_init K f1 f2 = Some (v0, n2)"
    and t: "has_kmer_1 v0 \<longrightarrow> in_table K (mat (matrix_1 v0))"
           "has_kmer_2 v0 \<longrightarrow> in_table K (mat (matrix_2 v0))" by blast
  from km_diff_init_rows [OF i] have n: "n2 = Width K f2" and p: "pending_1 K v0 = rows K f1"
    by simp_all
  from merging_draining_rows [OF t, of z n2] obtain vm v where
    m: "merging z K v0 = Some vm" and d: "draining K n2 vm = Some v" by blast
  from merging_pending_suffix [OF m] p obtain pre where pre: "rows K f1 = pre @ pending_1 K vm"
    by auto
  from i m d have k: "km_diff z K f1 f2 = Some v" by (simp add: km_diff_def)
  from i n m k merging_ends [OF m] pre draining_rows [OF d] show ?thesis by blast
qed

lemma Width_empty: "Width K [] = 0"
  by (simp add: Width_def rows.simps [of K "[]"] next_kmer_and_line_def fresh_def getline_def)

lemma diff_rows_drain: "diff_rows cmp n ls [] = concat (map (drained_row n) ls)"
  by (induction ls) simp_all

subsection \<open>The padding of the draining phase\<close>

text \<open>
  Claim C6: in every run of the program that does not leave the table, the first reads
  set \<^verbatim>\<open>n_sample_2\<close> to Width(right), the number of sample columns of the first record
  of the right file (0 for a right file without record, an empty one included); when
  the merging loop ends with records left in the left file, the right file is
  exhausted; and what the run writes after the merging loop is, for each of these
  records of the left file, in their order, the key, a space, the sample columns of
  the record and exactly Width(right) times \<^verbatim>\<open>" 0"\<close>, whatever the record's own number
  of columns.
\<close>

theorem drain_pads_with_right_width:
  assumes "in_table K f1" and "in_table K f2"
  shows "(\<exists>v0 vm v pre.
            km_diff_init K f1 f2 = Some (v0, Width K f2) \<and> merging z K v0 = Some vm
          \<and> km_diff z K f1 f2 = Some v
          \<and> (has_kmer_1 vm \<longrightarrow> \<not> has_kmer_2 vm)
          \<and> rows K f1 = pre @ pending_1 K vm
          \<and> outfile v = outfile vm @ concat (map (drained_row (Width K f2)) (pending_1 K vm)))
       \<and> (\<forall>n r. drained_row n r
                   = fst r @ '' '' @ first_column (snd r) @ concat (replicate n '' 0'') @ [NL])
       \<and> Width K f2 = (case rows K f2 of [] \<Rightarrow> 0 | r # _ \<Rightarrow> length (strtok_all (snd r)) - 1)
       \<and> Width K [] = 0"
  using km_diff_phases [OF assms, of z] Width_empty [of K]
  by (simp add: drained_row_def Width_def)

lemma P6_init: "km_diff_init 3 left_P6 right_P6 = Some (P6_v0, 2)"
  by code_simp

lemma P6_merging: "merging False 3 P6_v0 = Some P6_vm"
  by code_simp

lemma P6_pending: "pending_1 3 P6_vm = [(''TTT'', ''TTT 3 3'')]"
  by code_simp

lemma P6_in_table: "in_table 3 left_P6" "in_table 3 right_P6"
  by code_simp+

lemma P6_flags: "has_kmer_1 P6_vm" "\<not> has_kmer_2 P6_vm"
  by (simp_all add: P6_vm_def P6_v0_def)

lemma drained_row_TTT: "drained_row 2 (''TTT'', ''TTT 3 3'') = ''TTT 3 3 0 0'' @ [NL]"
  by code_simp

theorem drain_pads_with_right_width_witness:
  "in_table 3 left_P6 \<and> in_table 3 right_P6 \<and> Width 3 right_P6 = 2
   \<and> km_diff_init 3 left_P6 right_P6 = Some (P6_v0, 2) \<and> merging False 3 P6_v0 = Some P6_vm
   \<and> has_kmer_1 P6_vm \<and> \<not> has_kmer_2 P6_vm
   \<and> pending_1 3 P6_vm = [(''TTT'', ''TTT 3 3'')]
   \<and> map_option outfile (km_diff False 3 left_P6 right_P6)
       = Some (outfile P6_vm @ ''TTT 3 3 0 0'' @ [NL])"
proof -
  from drain_pads_with_right_width [OF P6_in_table, of False] obtain v0 vm v pre where
    i: "km_diff_init 3 left_P6 right_P6 = Some (v0, Width 3 right_P6)"
    and m: "merging False 3 v0 = Some vm" and k: "km_diff False 3 left_P6 right_P6 = Some v"
    and o: "outfile v = outfile vm @ concat (map (drained_row (Width 3 right_P6)) (pending_1 3 vm))"
    by blast
  from i P6_init have w: "Width 3 right_P6 = 2" and v0: "v0 = P6_v0" by simp_all
  from m v0 P6_merging have vm: "vm = P6_vm" by simp
  from k o w vm have "map_option outfile (km_diff False 3 left_P6 right_P6)
       = Some (outfile P6_vm @ ''TTT 3 3 0 0'' @ [NL])"
    by (simp add: P6_pending drained_row_TTT)
  with P6_in_table w P6_init P6_merging P6_pending P6_flags show ?thesis
    by simp
qed

subsection \<open>The separator of a drained row\<close>

lemma drained_row_rejoined:
  assumes "0 < K" and "r \<in> set (rows K f)" and "snd r = fst r @ sep @ cols" and "sep \<noteq> []"
    and "set sep \<subseteq> {CHR '' '', TAB}" and "deref cols \<notin> {CHR '' '', TAB}"
  shows "drained_row n r = fst r @ '' '' @ cols @ concat (replicate n '' 0'') @ [NL]"
proof -
  from rows_ok [OF assms(1,2)] have "set (fst r) \<subseteq> nucleotides" by (simp add: row_ok_def)
  then have "set (fst r) \<inter> {CHR '' '', TAB, NUL} = {}"
    by (auto simp: nucleotides_def TAB_def NUL_def)
  from first_column_skips [OF this assms(5,4,6)] assms(3) show ?thesis
    by (simp add: drained_row_def)
qed

text \<open>
  Claim C10: in every run of the program that does not leave the table, the rows
  written after the merging loop are, for the records left in the left file, the key,
  exactly one space, the line from its first sample column on, the zero columns and a
  newline: for a record whose line is its key, a run of spaces and tabs and the
  columns, the run of spaces and tabs is replaced by the one space.  This holds for
  every number of zero columns; with a right file without record the whole output is
  made of such rows with no zero column, so that a row differs from its line as soon as
  the separator is not one space.  A left row written by the merging loop is the line
  as it was read, separators included.
\<close>

theorem drain_rejoins_key_and_columns:
  assumes "0 < K" and "in_table K f1" and "in_table K f2"
  shows "(\<exists>v0 vm v pre.
            km_diff_init K f1 f2 = Some (v0, Width K f2) \<and> merging z K v0 = Some vm
          \<and> km_diff z K f1 f2 = Some v
          \<and> rows K f1 = pre @ pending_1 K vm
          \<and> outfile v = outfile vm @ concat (map (drained_row (Width K f2)) (pending_1 K vm))
          \<and> outfile v = diff_rows (key_cmp z) (Width K f2) (rows K f1) (rows K f2)
          \<and> (rows K f2 = [] \<longrightarrow> outfile v = concat (map (drained_row 0) (rows K f1))))
       \<and> (\<forall>n r. drained_row n r
                   = fst r @ '' '' @ first_column (snd r) @ concat (replicate n '' 0'') @ [NL])
       \<and> (\<forall>r \<in> set (rows K f1). \<forall>sep cols n.
             snd r = fst r @ sep @ cols \<and> sep \<noteq> [] \<and> set sep \<subseteq> {CHR '' '', TAB}
               \<and> deref cols \<notin> {CHR '' '', TAB} \<longrightarrow>
             drained_row n r = fst r @ '' '' @ cols @ concat (replicate n '' 0'') @ [NL])
       \<and> (\<forall>n l ls. diff_rows (key_cmp z) n (l # ls) []
                      = drained_row n l @ diff_rows (key_cmp z) n ls [])
       \<and> (\<forall>n l ls r rs. key_cmp z (fst l) (fst r) < 0 \<longrightarrow>
             diff_rows (key_cmp z) n (l # ls) (r # rs)
               = snd l @ [NL] @ diff_rows (key_cmp z) n ls (r # rs))"
proof -
  from km_diff_phases [OF assms(2,3), of z] obtain v0 vm v pre where
    a: "km_diff_init K f1 f2 = Some (v0, Width K f2)" "merging z K v0 = Some vm"
       "km_diff z K f1 f2 = Some v" "rows K f1 = pre @ pending_1 K vm"
       "outfile v = outfile vm @ concat (map (drained_row (Width K f2)) (pending_1 K vm))"
    by blast
  from km_diff_rows [OF assms(2,3), of z] a(3)
  have b: "outfile v = diff_rows (key_cmp z) (Width K f2) (rows K f1) (rows K f2)" by simp
  then have c: "rows K f2 = [] \<longrightarrow> outfile v = concat (map (drained_row 0) (rows K f1))"
    by (simp add: diff_rows_drain Width_def)
  from a b c have 1: "\<exists>v0 vm v pre.
            km_diff_init K f1 f2 = Some (v0, Width K f2) \<and> merging z K v0 = Some vm
          \<and> km_diff z K f1 f2 = Some v
          \<and> rows K f1 = pre @ pending_1 K vm
          \<and> outfile v = outfile vm @ concat (map (drained_row (Width K f2)) (pending_1 K vm))
          \<and> outfile v = diff_rows (key_cmp z) (Width K f2) (rows K f1) (rows K f2)
          \<and> (rows K f2 = [] \<longrightarrow> outfile v = concat (map (drained_row 0) (rows K f1)))"
    by blast
  have 2: "\<forall>r \<in> set (rows K f1). \<forall>sep cols n.
             snd r = fst r @ sep @ cols \<and> sep \<noteq> [] \<and> set sep \<subseteq> {CHR '' '', TAB}
               \<and> deref cols \<notin> {CHR '' '', TAB} \<longrightarrow>
             drained_row n r = fst r @ '' '' @ cols @ concat (replicate n '' 0'') @ [NL]"
    using drained_row_rejoined [OF assms(1)] by blast
  have 3: "\<forall>n r. drained_row n r
                   = fst r @ '' '' @ first_column (snd r) @ concat (replicate n '' 0'') @ [NL]"
    by (simp add: drained_row_def)
  have 4: "\<forall>n l ls. diff_rows (key_cmp z) n (l # ls) []
                      = drained_row n l @ diff_rows (key_cmp z) n ls []"
    by simp
  have 5: "\<forall>n l ls r rs. key_cmp z (fst l) (fst r) < 0 \<longrightarrow>
             diff_rows (key_cmp z) n (l # ls) (r # rs)
               = snd l @ [NL] @ diff_rows (key_cmp z) n ls (r # rs)"
    by simp
  from 1 2 3 4 5 show ?thesis by (intro conjI)
qed

lemma tab_hyps:
  "in_table 1 tab_left" "in_table 1 C_one" "in_table 1 []"
  "rows 1 tab_left = [(''A'', ''A'' @ [TAB, TAB] @ ''1'')]" "rows 1 [] = []"
  "diff_rows (key_cmp False) (Width 1 C_one) (rows 1 tab_left) (rows 1 C_one)
     = ''A'' @ [TAB, TAB] @ ''1'' @ [NL]"
  by code_simp+

theorem drain_rejoins_key_and_columns_witness:
  "in_table 1 tab_left \<and> in_table 1 C_one \<and> in_table 1 []
   \<and> rows 1 tab_left = [(''A'', ''A'' @ [TAB, TAB] @ ''1'')] \<and> rows 1 [] = []
   \<and> [TAB, TAB] \<noteq> [] \<and> set [TAB, TAB] \<subseteq> {CHR '' '', TAB} \<and> deref ''1'' \<notin> {CHR '' '', TAB}
   \<and> map_option outfile (km_diff False 1 tab_left []) = Some (''A 1'' @ [NL])
   \<and> map_option outfile (km_diff False 1 tab_left C_one) = Some (''A'' @ [TAB, TAB] @ ''1'' @ [NL])"
proof -
  have h: "[TAB, TAB] \<noteq> []" "set [TAB, TAB] \<subseteq> {CHR '' '', TAB}" "deref ''1'' \<notin> {CHR '' '', TAB}"
    by (simp_all add: TAB_def deref_def)
  have k: "(0::int) < 1" by simp
  note e = drain_rejoins_key_and_columns [OF k tab_hyps(1) tab_hyps(3), of False]
  note c = drain_rejoins_key_and_columns [OF k tab_hyps(1) tab_hyps(2), of False]
  from e [THEN conjunct1] obtain v where v: "km_diff False 1 tab_left [] = Some v"
    and o: "rows 1 [] = [] \<longrightarrow> outfile v = concat (map (drained_row 0) (rows 1 tab_left))"
    by (elim exE conjE) 
  have r: "(''A'', ''A'' @ [TAB, TAB] @ ''1'') \<in> set (rows 1 tab_left)"
    by (simp add: tab_hyps(4))
  have f: "snd (''A'', ''A'' @ [TAB, TAB] @ ''1'') = fst (''A'', ''A'' @ [TAB, TAB] @ ''1'') @ [TAB, TAB] @ ''1''
           \<and> [TAB, TAB] \<noteq> [] \<and> set [TAB, TAB] \<subseteq> {CHR '' '', TAB} \<and> deref ''1'' \<notin> {CHR '' '', TAB}"
    using h by simp
  from e [THEN conjunct2, THEN conjunct2, THEN conjunct1, rule_format, OF r f, of 0]
  have d: "drained_row 0 (''A'', ''A'' @ [TAB, TAB] @ ''1'') = ''A 1'' @ [NL]"
    by simp
  from v o d have 1: "map_option outfile (km_diff False 1 tab_left []) = Some (''A 1'' @ [NL])"
    by (simp add: tab_hyps(4,5))
  from c [THEN conjunct1] obtain w where w: "km_diff False 1 tab_left C_one = Some w"
    and ow: "outfile w = diff_rows (key_cmp False) (Width 1 C_one) (rows 1 tab_left) (rows 1 C_one)"
    by (elim exE conjE)
  then have 2: "map_option outfile (km_diff False 1 tab_left C_one)
                  = Some (''A'' @ [TAB, TAB] @ ''1'' @ [NL])"
    by (simp add: tab_hyps(6))
  show ?thesis
    by (intro conjI) (use 1 2 h tab_hyps(1-5) in simp_all)
qed

subsection \<open>The keys of the difference\<close>

text \<open>
  Claim C1 says that for files sorted non-decreasingly the keys written are the left
  keys that occur nowhere in the right file.  A key repeated in the left file is
  dropped once with its match in the right file and written the second time; and in
  the order A<C<T<G the keys \<^verbatim>\<open>N\<close> and \<^verbatim>\<open>C\<close> compare equal, so that \<^verbatim>\<open>N\<close> is dropped
  although the right file does not hold it.
\<close>

theorem repeated_left_key_is_emitted:
  "map fst (rows 1 dup_left) = [''A'', ''A''] \<and> map fst (rows 1 dup_right) = [''A'']
   \<and> sorted_wrt (\<lambda>a b. key_cmp False a b \<le> 0) [''A'', ''A'']
   \<and> sorted_wrt (\<lambda>a b. key_cmp False a b \<le> 0) [''A'']
   \<and> map_option outfile (km_diff False 1 dup_left dup_right) = Some ([NL] @ ''A 2 0'' @ [NL])
   \<and> emitted_keys 1 ([NL] @ ''A 2 0'' @ [NL]) = [''A'']
   \<and> filter (\<lambda>k. k \<notin> set [''A'']) [''A'', ''A''] = []
   \<and> map fst (rows 1 N_left) = [''N''] \<and> map fst (rows 1 C_right) = [''C'']
   \<and> map_option outfile (km_diff True 1 N_left C_right) = Some [NL]
   \<and> emitted_keys 1 [NL] = []
   \<and> filter (\<lambda>k. k \<notin> set [''C'']) [''N''] = [''N'']"
  by code_simp

text \<open>
  Claim C1, amended: for every pair of files that the reader reads without leaving
  its table, whose records have keys sorted under the selected comparator, strictly
  increasing in the left file (no key twice) and non-decreasing in the right file, and
  made of the letters A, C, G, T when the comparator is \<^verbatim>\<open>ktcmp\<close>, the run ends and the
  keys of the rows written (the lines of the output that are not empty) are the keys of
  the left file that are no key of the right file, in the order of the left file.
\<close>

theorem emitted_keys_of_km_diff:
  assumes "0 < K" and "in_table K f1" and "in_table K f2"
    and "sorted_wrt (\<lambda>a b. key_cmp z a b < 0) (map fst (rows K f1))"
    and "sorted_wrt (\<lambda>a b. key_cmp z a b \<le> 0) (map fst (rows K f2))"
    and "z \<longrightarrow> (\<forall>r \<in> set (rows K f1) \<union> set (rows K f2). set (fst r) \<subseteq> ACGT)"
  shows "\<exists>v. km_diff z K f1 f2 = Some v
           \<and> emitted_keys K (outfile v)
               = filter (\<lambda>k. k \<notin> set (map fst (rows K f2))) (map fst (rows K f1))"
proof -
  from km_diff_rows [OF assms(2,3)] obtain v where v: "km_diff z K f1 f2 = Some v"
    and o: "outfile v = diff_rows (key_cmp z) (Width K f2) (rows K f1) (rows K f2)" by blast
  have d: "\<forall>r \<in> set (rows K f1) \<union> set (rows K f2). row_ok K r \<and> fst r \<in> key_domain z K"
  proof
    fix r assume r: "r \<in> set (rows K f1) \<union> set (rows K f2)"
    then have ok: "row_ok K r" using rows_ok [OF assms(1), of r] by blast
    with r assms(6) have "fst r \<in> key_domain z K"
      by (auto simp: key_domain_def row_ok_def)
    with ok show "row_ok K r \<and> fst r \<in> key_domain z K" by simp
  qed
  from diff_rows_keys [OF assms(1) d assms(4,5)] v o show ?thesis by simp
qed

lemma P6_hyps:
  "in_table 3 left_P6" "in_table 3 right_P6"
  "sorted_wrt (\<lambda>a b. key_cmp False a b < 0) (map fst (rows 3 left_P6))"
  "sorted_wrt (\<lambda>a b. key_cmp False a b \<le> 0) (map fst (rows 3 right_P6))"
  by code_simp+

lemma kt_hyps:
  "in_table 2 kt_left" "in_table 2 kt_right"
  "sorted_wrt (\<lambda>a b. key_cmp True a b < 0) (map fst (rows 2 kt_left))"
  "sorted_wrt (\<lambda>a b. key_cmp True a b \<le> 0) (map fst (rows 2 kt_right))"
  by code_simp+

lemma kt_rows:
  "rows 2 kt_left = [(''AT'', ''AT 1''), (''AG'', ''AG 2'')]" "rows 2 kt_right = [(''AG'', ''AG 7'')]"
  "rows 3 left_P6 = [(''AAA'', ''AAA 1 2''), (''AAC'', ''AAC 0 1''), (''TTT'', ''TTT 3 3'')]"
  "rows 3 right_P6 = [(''AAC'', ''AAC 5 5''), (''GGG'', ''GGG 0 0'')]"
  by code_simp+

theorem emitted_keys_of_km_diff_witness:
  "in_table 3 left_P6 \<and> in_table 3 right_P6
   \<and> sorted_wrt (\<lambda>a b. key_cmp False a b < 0) (map fst (rows 3 left_P6))
   \<and> sorted_wrt (\<lambda>a b. key_cmp False a b \<le> 0) (map fst (rows 3 right_P6))
   \<and> map_option (\<lambda>v. emitted_keys 3 (outfile v)) (km_diff False 3 left_P6 right_P6)
       = Some [''AAA'', ''TTT'']
   \<and> in_table 2 kt_left \<and> in_table 2 kt_right
   \<and> sorted_wrt (\<lambda>a b. key_cmp True a b < 0) (map fst (rows 2 kt_left))
   \<and> sorted_wrt (\<lambda>a b. key_cmp True a b \<le> 0) (map fst (rows 2 kt_right))
   \<and> set ''AT'' \<subseteq> ACGT \<and> set ''AG'' \<subseteq> ACGT
   \<and> map_option (\<lambda>v. emitted_keys 2 (outfile v)) (km_diff True 2 kt_left kt_right)
       = Some [''AT'']"
proof -
  have a: "set ''AT'' \<subseteq> ACGT" "set ''AG'' \<subseteq> ACGT" by (simp_all add: ACGT_def)
  have z: "True \<longrightarrow> (\<forall>r \<in> set (rows 2 kt_left) \<union> set (rows 2 kt_right). set (fst r) \<subseteq> ACGT)"
    using a by (simp add: kt_rows)
  have k: "(0::int) < 3" "(0::int) < 2" by simp_all
  from emitted_keys_of_km_diff [OF k(1) P6_hyps] obtain v where
    "km_diff False 3 left_P6 right_P6 = Some v"
    "emitted_keys 3 (outfile v)
       = filter (\<lambda>k. k \<notin> set (map fst (rows 3 right_P6))) (map fst (rows 3 left_P6))"
    by blast
  then have 1: "map_option (\<lambda>v. emitted_keys 3 (outfile v)) (km_diff False 3 left_P6 right_P6)
       = Some [''AAA'', ''TTT'']"
    by (simp add: kt_rows)
  from emitted_keys_of_km_diff [OF k(2) kt_hyps z] obtain w where
    "km_diff True 2 kt_left kt_right = Some w"
    "emitted_keys 2 (outfile w)
       = filter (\<lambda>k. k \<notin> set (map fst (rows 2 kt_right))) (map fst (rows 2 kt_left))"
    by blast
  then have 2: "map_option (\<lambda>v. emitted_keys 2 (outfile v)) (km_diff True 2 kt_left kt_right)
       = Some [''AT'']"
    by (simp add: kt_rows)
  from 1 2 P6_hyps kt_hyps a show ?thesis by simp
qed

subsection \<open>Malformed rows\<close>

lemma getline_append:
  assumes "g \<noteq> []" and "last g = NL"
  shows "\<exists>l r. getline g = Some (l, r) \<and> getline (g @ b) = Some (l, r @ b) \<and> (r = [] \<or> last r = NL)"
proof -
  from assms have n: "NL \<in> set g" by (metis last_in_set)
  then have ne: "dropWhile (\<lambda>c. c \<noteq> NL) g \<noteq> []"
    by auto
  from hd_dropWhile [OF this] have "hd (dropWhile (\<lambda>c. c \<noteq> NL) g) = NL" by simp
  with ne obtain r where d: "dropWhile (\<lambda>c. c \<noteq> NL) g = NL # r"
    by (cases "dropWhile (\<lambda>c. c \<noteq> NL) g") auto
  have "takeWhile (\<lambda>c. c \<noteq> NL) g @ dropWhile (\<lambda>c. c \<noteq> NL) g = g" by simp
  then have g: "g = takeWhile (\<lambda>c. c \<noteq> NL) g @ NL # r" unfolding d by simp
  from n have d': "dropWhile (\<lambda>c. c \<noteq> NL) (g @ b) = NL # r @ b"
    and t': "takeWhile (\<lambda>c. c \<noteq> NL) (g @ b) = takeWhile (\<lambda>c. c \<noteq> NL) g"
    using d by simp_all
  have 1: "getline g = Some (takeWhile (\<lambda>c. c \<noteq> NL) g @ [NL], r)"
    using assms(1) unfolding getline_def d by simp
  have 2: "getline (g @ b) = Some (takeWhile (\<lambda>c. c \<noteq> NL) g @ [NL], r @ b)"
    using assms(1) unfolding getline_def d' t' by simp
  have "r = [] \<or> last r = NL"
  proof (cases "r = []")
    case False
    from g have "last g = last (NL # r)" by (metis last_appendR list.distinct(1))
    with False assms(2) show ?thesis by simp
  qed simp
  with 1 2 show ?thesis by blast
qed

text \<open>The reader on a file of whole lines does not depend on what follows the file.\<close>

lemma next_kmer_and_line_append:
  assumes "g \<noteq> []" and "last g = NL"
  shows "\<exists>r. (r = [] \<or> last r = NL)
           \<and> (case next_kmer_and_line K (fresh g) of
                 None \<Rightarrow> next_kmer_and_line K (fresh (g @ b)) = None
               | Some (h, m, e) \<Rightarrow>
                   mat m = r \<and> next_kmer_and_line K (fresh (g @ b)) = Some (h, m\<lparr>mat := r @ b\<rparr>, e))"
proof -
  from getline_append [OF assms, of b] obtain l r where
    1: "getline g = Some (l, r)" and 2: "getline (g @ b) = Some (l, r @ b)"
    and 3: "r = [] \<or> last r = NL" by blast
  from 1 2 have "case next_kmer_and_line K (fresh g) of
                 None \<Rightarrow> next_kmer_and_line K (fresh (g @ b)) = None
               | Some (h, m, e) \<Rightarrow>
                   mat m = r \<and> next_kmer_and_line K (fresh (g @ b)) = Some (h, m\<lparr>mat := r @ b\<rparr>, e)"
    by (simp add: next_kmer_and_line_def fresh_def split: copied.splits)
  with 3 show ?thesis by blast
qed

lemma rows_Nil: "rows K [] = []"
  by (simp add: rows.simps [of K "[]"] next_kmer_and_line_def fresh_def getline_def)

lemma in_table_Nil: "- 1 < K \<Longrightarrow> in_table K []"
  by (simp add: in_table.simps [of K "[]"] next_kmer_and_line_def fresh_def getline_def)

lemma rows_append:
  "g = [] \<or> last g = NL \<Longrightarrow> rows K b = [] \<Longrightarrow> rows K (g @ b) = rows K g"
proof (induction K g rule: rows.induct)
  case (1 K g)
  show ?case
  proof (cases "g = []")
    case True
    with "1.prems" show ?thesis by (simp add: rows_Nil)
  next
    case False
    with "1.prems" have l: "last g = NL" by simp
    from next_kmer_and_line_append [OF False l, of K b] obtain r where r: "r = [] \<or> last r = NL"
      and c: "case next_kmer_and_line K (fresh g) of
                 None \<Rightarrow> next_kmer_and_line K (fresh (g @ b)) = None
               | Some (h, m, e) \<Rightarrow>
                   mat m = r \<and> next_kmer_and_line K (fresh (g @ b)) = Some (h, m\<lparr>mat := r @ b\<rparr>, e)"
      by blast
    show ?thesis
    proof (cases "next_kmer_and_line K (fresh g)")
      case None
      with c show ?thesis by (simp add: rows.simps [of K g] rows.simps [of K "g @ b"])
    next
      case (Some x)
      obtain h m e where x: "x = (h, m, e)" by (cases x)
      from c Some x have m: "mat m = r"
        and n: "next_kmer_and_line K (fresh (g @ b)) = Some (h, m\<lparr>mat := r @ b\<rparr>, e)" by simp_all
      show ?thesis
      proof (cases h)
        case False
        with Some x n show ?thesis by (simp add: rows.simps [of K g] rows.simps [of K "g @ b"])
      next
        case True
        from "1.IH" [OF Some x [symmetric] refl True] r m "1.prems"(2)
        have "rows K (r @ b) = rows K r" by simp
        with Some x n True m show ?thesis
          by (simp add: rows.simps [of K g] rows.simps [of K "g @ b"])
      qed
    qed
  qed
qed

lemma in_table_append:
  "g = [] \<or> last g = NL \<Longrightarrow> in_table K g \<Longrightarrow> in_table K b \<Longrightarrow> in_table K (g @ b)"
proof (induction K g rule: in_table.induct)
  case (1 K g)
  show ?case
  proof (cases "g = []")
    case True
    with "1.prems" show ?thesis by simp
  next
    case False
    with "1.prems" have l: "last g = NL" by simp
    from next_kmer_and_line_append [OF False l, of K b] obtain r where r: "r = [] \<or> last r = NL"
      and c: "case next_kmer_and_line K (fresh g) of
                 None \<Rightarrow> next_kmer_and_line K (fresh (g @ b)) = None
               | Some (h, m, e) \<Rightarrow>
                   mat m = r \<and> next_kmer_and_line K (fresh (g @ b)) = Some (h, m\<lparr>mat := r @ b\<rparr>, e)"
      by blast
    show ?thesis
    proof (cases "next_kmer_and_line K (fresh g)")
      case None
      with "1.prems"(2) show ?thesis by (simp add: in_table.simps [of K g])
    next
      case (Some x)
      obtain h m e where x: "x = (h, m, e)" by (cases x)
      from c Some x have m: "mat m = r"
        and n: "next_kmer_and_line K (fresh (g @ b)) = Some (h, m\<lparr>mat := r @ b\<rparr>, e)" by simp_all
      show ?thesis
      proof (cases h)
        case False
        with n show ?thesis by (simp add: in_table.simps [of K "g @ b"])
      next
        case True
        from "1.prems"(2) Some x True m have "in_table K r" by (simp add: in_table.simps [of K g])
        from "1.IH" [OF Some x [symmetric] refl True] r m this "1.prems"(3)
        have "in_table K (r @ b)" by simp
        with n True show ?thesis
          by (simp add: in_table.simps [of K "g @ b"])
      qed
    qed
  qed
qed

lemma failed_read_rows:
  assumes "map_option fst (next_kmer_and_line K (fresh b)) = Some False"
  shows "rows K b = []" "in_table K b"
  using assms by (auto simp: rows.simps [of K b] in_table.simps [of K b] split: option.splits)

lemma Width_rows: "rows K f = rows K f' \<Longrightarrow> Width K f = Width K f'"
  by (simp add: Width_def)

lemma km_diff_truncated_left:
  assumes "g = [] \<or> last g = NL" and "map_option fst (next_kmer_and_line K (fresh b)) = Some False"
    and "in_table K g" and "in_table K f"
  shows "\<exists>v v'. km_diff z K (g @ b) f = Some v \<and> km_diff z K g f = Some v' \<and> outfile v = outfile v'"
proof -
  note b = failed_read_rows [OF assms(2)]
  from in_table_append [OF assms(1,3) b(2)] have t: "in_table K (g @ b)" .
  from km_diff_rows [OF t assms(4), of z] km_diff_rows [OF assms(3,4), of z]
       rows_append [OF assms(1) b(1)]
  show ?thesis by auto
qed

lemma km_diff_truncated_right:
  assumes "g = [] \<or> last g = NL" and "map_option fst (next_kmer_and_line K (fresh b)) = Some False"
    and "in_table K g" and "in_table K f"
  shows "\<exists>v v'. km_diff z K f (g @ b) = Some v \<and> km_diff z K f g = Some v' \<and> outfile v = outfile v'"
proof -
  note b = failed_read_rows [OF assms(2)]
  from in_table_append [OF assms(1,3) b(2)] have t: "in_table K (g @ b)" .
  from km_diff_rows [OF assms(4) t, of z] km_diff_rows [OF assms(4,3), of z]
       rows_append [OF assms(1) b(1)] Width_rows [OF rows_append [OF assms(1) b(1)]]
  show ?thesis by auto
qed

lemma main_returns_0:
  assumes p: "parse_command_line e args = Inr (opts, [p1, p2])"
    and k: "0 < ksize opts" "ksize opts \<noteq> 2 ^ 31 - 1" and h: "\<not> help_opt opts"
    and f: "files e p1 = Some f1" "files e p2 = Some f2"
    and t: "in_table (ksize opts) f1" "in_table (ksize opts) f2"
    and w: "\<forall>out. out_fname opts = Some out \<longrightarrow> writable e out"
  shows "\<exists>r. main e args = Some r \<and> ending r = Returned 0"
proof (cases "out_fname opts")
  case None
  from km_diff_rows [OF t, of "use_ktcmp opts"] obtain v where
    "km_diff (use_ktcmp opts) (ksize opts) f1 f2 = Some v" by blast
  with p k h f None show ?thesis by (simp add: main_def)
next
  case (Some out)
  have "in_table (ksize opts) (if same_file e p1 out then [] else f1)"
    "in_table (ksize opts) (if same_file e p2 out then [] else f2)"
    using t k(1) by (simp_all add: in_table_Nil)
  from km_diff_rows [OF this, of "use_ktcmp opts"] obtain v where
    "km_diff (use_ktcmp opts) (ksize opts) (if same_file e p1 out then [] else f1)
       (if same_file e p2 out then [] else f2) = Some v" by blast
  with p k h f Some w show ?thesis by (simp add: main_def)
qed

lemma short_line_silent:
  "getline (mat m) = Some (l, rest) \<Longrightarrow> int (length l) < K \<Longrightarrow>
     next_kmer_and_line K m = Some (False, m\<lparr>line := cstr l, mat := rest\<rparr>, [])"
  by (simp add: next_kmer_and_line_def)

lemma bad_key_warned:
  "getline (mat m) = Some (l, rest) \<Longrightarrow> K \<le> int (length l) \<Longrightarrow>
   find (\<lambda>c. c \<notin> nucleotides) (take (nat K) l) = Some c \<Longrightarrow> uchar c < 128 \<Longrightarrow>
     map_option (\<lambda>(h, m', e). (h, e)) (next_kmer_and_line K m) = Some (False, warning)"
  by (simp add: next_kmer_and_line_def copy_kmer_find)

lemma newline_in_key_warned:
  assumes "getline (mat m) = Some (l, rest)" and "int (length l) = K" and "last l = NL"
    and "\<forall>c\<in>set l. uchar c < 128"
  shows "map_option (\<lambda>(h, m', e). (h, e)) (next_kmer_and_line K m) = Some (False, warning)"
proof -
  from getline_line [OF assms(1)] have ne: "l \<noteq> []" by simp
  with assms(3) have "NL \<in> set l" by (metis last_in_set)
  moreover from assms(2) have t: "take (nat K) l = l" by simp
  ultimately have "find (\<lambda>c. c \<notin> nucleotides) (take (nat K) l) \<noteq> None"
    using nucleotides_no_NL by (auto simp: find_None_iff)
  then obtain c where c: "find (\<lambda>c. c \<notin> nucleotides) (take (nat K) l) = Some c" by blast
  then have "c \<in> set l" unfolding t by (auto simp: find_Some_iff)
  with assms(4) have "uchar c < 128" by simp
  from bad_key_warned [OF assms(1) _ c this] assms(2) show ?thesis by simp
qed

text \<open>
  Claim C9 says that a malformed row, a line shorter than K included, makes the
  program write a diagnostic.  For the line \<^verbatim>\<open>A\<close> with K=3, two bytes with its newline,
  the reader returns false and writes nothing: the standard error stream of the run
  below holds the two information lines only.
\<close>

theorem short_line_gets_no_diagnostic:
  "next_kmer_and_line 3 (fresh short_b)
     = Some (False, \<lparr>kmer = [], line = ''A'' @ [NL], mat = ''TTT 2'' @ [NL]\<rparr>, [])
   \<and> main env_short [''-k'', ''3'', ''left'', ''right'']
     = Some \<lparr>ending = Returned 0, to_stdout = ''AAA 1'' @ [NL],
             to_stderr = ''[info] samples in 1st matrix: 1'' @ [NL]
                           @ ''[info] samples in 2nd matrix: 1'' @ [NL],
             to_file = None, fopened = [''left'', ''right'']\<rparr>"
  by code_simp

text \<open>
  Claim C9, amended: a malformed row is not fatal.  On a line for which \<^verbatim>\<open>getline\<close>
  returns fewer than K bytes, the newline counted, the reader returns false and writes
  no diagnostic.  On a line of exactly K bytes that ends with its newline (K-1
  characters before it), and on any line of at least K bytes whose first K bytes hold
  a byte outside the ten accepted letters, the first such byte being below 128, it
  returns false and writes the warning.  The read that returns false ends that file
  only: when a file of whole lines \<open>g\<close> is followed by bytes \<open>b\<close> whose first read
  returns false, the run on \<open>g @ b\<close> ends and writes the output of the run on \<open>g\<close>,
  for the left file as for the right one.  And with accepted options, a positive key
  length below \<open>2^31-1\<close>, two files that can be opened and are read without leaving
  the table, and a writable output file, \<^verbatim>\<open>main\<close> returns 0.
\<close>

theorem malformed_row_ends_stream:
  "(getline (mat m) = Some (l, rest) \<and> int (length l) < K \<longrightarrow>
      next_kmer_and_line K m = Some (False, m\<lparr>line := cstr l, mat := rest\<rparr>, []))
   \<and> (getline (mat m) = Some (l, rest) \<and> int (length l) = K \<and> last l = NL
        \<and> (\<forall>c\<in>set l. uchar c < 128) \<longrightarrow>
      map_option (\<lambda>(h, m', e). (h, e)) (next_kmer_and_line K m) = Some (False, warning))
   \<and> (getline (mat m) = Some (l, rest) \<and> K \<le> int (length l)
        \<and> find (\<lambda>c. c \<notin> nucleotides) (take (nat K) l) = Some c \<and> uchar c < 128 \<longrightarrow>
      map_option (\<lambda>(h, m', e). (h, e)) (next_kmer_and_line K m) = Some (False, warning))
   \<and> ((g = [] \<or> last g = NL) \<and> map_option fst (next_kmer_and_line K (fresh b)) = Some False
        \<and> in_table K g \<and> in_table K f \<longrightarrow>
      (\<exists>v v'. km_diff z K (g @ b) f = Some v \<and> km_diff z K g f = Some v' \<and> outfile v = outfile v')
      \<and> (\<exists>v v'. km_diff z K f (g @ b) = Some v \<and> km_diff z K f g = Some v' \<and> outfile v = outfile v'))
   \<and> (parse_command_line e args = Inr (opts, [p1, p2]) \<and> 0 < ksize opts \<and> ksize opts \<noteq> 2 ^ 31 - 1
        \<and> \<not> help_opt opts \<and> files e p1 = Some f1 \<and> files e p2 = Some f2
        \<and> in_table (ksize opts) f1 \<and> in_table (ksize opts) f2
        \<and> (\<forall>out. out_fname opts = Some out \<longrightarrow> writable e out) \<longrightarrow>
      (\<exists>r. main e args = Some r \<and> ending r = Returned 0))"
proof (intro conjI impI; (elim conjE)?)
  show "next_kmer_and_line K m = Some (False, m\<lparr>line := cstr l, mat := rest\<rparr>, [])"
    if "getline (mat m) = Some (l, rest)" "int (length l) < K"
    using that by (rule short_line_silent)
  show "map_option (\<lambda>(h, m', e). (h, e)) (next_kmer_and_line K m) = Some (False, warning)"
    if "getline (mat m) = Some (l, rest)" "int (length l) = K" "last l = NL" "\<forall>c\<in>set l. uchar c < 128"
    using that by (rule newline_in_key_warned)
  show "map_option (\<lambda>(h, m', e). (h, e)) (next_kmer_and_line K m) = Some (False, warning)"
    if "getline (mat m) = Some (l, rest)" "K \<le> int (length l)"
      "find (\<lambda>c. c \<notin> nucleotides) (take (nat K) l) = Some c" "uchar c < 128"
    using that by (rule bad_key_warned)
  show "\<exists>v v'. km_diff z K (g @ b) f = Some v \<and> km_diff z K g f = Some v' \<and> outfile v = outfile v'"
    if "g = [] \<or> last g = NL" "map_option fst (next_kmer_and_line K (fresh b)) = Some False"
      "in_table K g" "in_table K f"
    using that by (rule km_diff_truncated_left)
  show "\<exists>v v'. km_diff z K f (g @ b) = Some v \<and> km_diff z K f g = Some v' \<and> outfile v = outfile v'"
    if "g = [] \<or> last g = NL" "map_option fst (next_kmer_and_line K (fresh b)) = Some False"
      "in_table K g" "in_table K f"
    using that by (rule km_diff_truncated_right)
  show "\<exists>r. main e args = Some r \<and> ending r = Returned 0"
    if "parse_command_line e args = Inr (opts, [p1, p2])" "0 < ksize opts" "ksize opts \<noteq> 2 ^ 31 - 1"
      "\<not> help_opt opts" "files e p1 = Some f1" "files e p2 = Some f2"
      "in_table (ksize opts) f1" "in_table (ksize opts) f2"
      "\<forall>out. out_fname opts = Some out \<longrightarrow> writable e out"
    using that by (rule main_returns_0)
qed

lemma nl_hyps:
  "getline (mat (fresh nl_b)) = Some (''AA'' @ [NL], ''TTT 2'' @ [NL])"
  "last (''AA'' @ [NL]) = NL" "\<forall>c\<in>set (''AA'' @ [NL]). uchar c < 128"
  by code_simp+

lemma short_hyps:
  "getline (mat (fresh short_b)) = Some (''A'' @ [NL], ''TTT 2'' @ [NL])"
  "getline (mat (fresh bad_b)) = Some (''AxA 3'' @ [NL], ''TTT 2'' @ [NL])"
  "find (\<lambda>c. c \<notin> nucleotides) (take (nat 3) (''AxA 3'' @ [NL])) = Some (CHR ''x'')"
  "last short_g = NL" "in_table 3 short_g" "in_table 3 right_CCC" "in_table 3 (short_g @ short_b)"
  "map_option fst (next_kmer_and_line 3 (fresh short_b)) = Some False"
  "parse_command_line env_short [''-k'', ''3'', ''left'', ''right''] = Inr (opts_k3, [''left'', ''right''])"
  "files env_short ''left'' = Some (short_g @ short_b)" "files env_short ''right'' = Some right_CCC"
  by code_simp+

theorem malformed_row_ends_stream_witness:
  "getline (mat (fresh short_b)) = Some (''A'' @ [NL], ''TTT 2'' @ [NL])
   \<and> int (length (''A'' @ [NL])) < 3
   \<and> next_kmer_and_line 3 (fresh short_b)
       = Some (False, (fresh short_b)\<lparr>line := cstr (''A'' @ [NL]), mat := ''TTT 2'' @ [NL]\<rparr>, [])
   \<and> getline (mat (fresh bad_b)) = Some (''AxA 3'' @ [NL], ''TTT 2'' @ [NL])
   \<and> find (\<lambda>c. c \<notin> nucleotides) (take (nat 3) (''AxA 3'' @ [NL])) = Some (CHR ''x'')
   \<and> uchar (CHR ''x'') < 128
   \<and> map_option (\<lambda>(h, m', e). (h, e)) (next_kmer_and_line 3 (fresh bad_b)) = Some (False, warning)
   \<and> last short_g = NL \<and> in_table 3 short_g \<and> in_table 3 right_CCC
   \<and> map_option fst (next_kmer_and_line 3 (fresh short_b)) = Some False
   \<and> map_option outfile (km_diff False 3 (short_g @ short_b) right_CCC)
       = map_option outfile (km_diff False 3 short_g right_CCC)
   \<and> map_option outfile (km_diff False 3 right_CCC (short_g @ short_b))
       = map_option outfile (km_diff False 3 right_CCC short_g)
   \<and> parse_command_line env_short [''-k'', ''3'', ''left'', ''right''] = Inr (opts_k3, [''left'', ''right''])
   \<and> map_option ending (main env_short [''-k'', ''3'', ''left'', ''right'']) = Some (Returned 0)
   \<and> getline (mat (fresh nl_b)) = Some (''AA'' @ [NL], ''TTT 2'' @ [NL])
   \<and> int (length (''AA'' @ [NL])) = 3 \<and> last (''AA'' @ [NL]) = NL
   \<and> map_option (\<lambda>(h, m', e). (h, e)) (next_kmer_and_line 3 (fresh nl_b)) = Some (False, warning)"
proof -
  have nn: "int (length (''AA'' @ [NL])) = 3" by simp
  note c = malformed_row_ends_stream [of "fresh nl_b" "''AA'' @ [NL]" "''TTT 2'' @ [NL]" 3
      "CHR ''x''" short_g short_b right_CCC False env_short "[''-k'', ''3'', ''left'', ''right'']"
      opts_k3 "''left''" "''right''" "short_g @ short_b" right_CCC]
  from c [THEN conjunct2, THEN conjunct1, rule_format] nl_hyps nn
  have 6: "map_option (\<lambda>(h, m', e). (h, e)) (next_kmer_and_line 3 (fresh nl_b)) = Some (False, warning)"
    by blast
  have u: "uchar (CHR ''x'') < 128" by (simp add: uchar_def)
  have n: "int (length (''A'' @ [NL])) < 3" "(3::int) \<le> int (length (''AxA 3'' @ [NL]))" by simp_all
  have o: "0 < ksize opts_k3" "ksize opts_k3 \<noteq> 2 ^ 31 - 1" "\<not> help_opt opts_k3"
    "\<forall>out. out_fname opts_k3 = Some out \<longrightarrow> writable env_short out"
    "in_table (ksize opts_k3) (short_g @ short_b)" "in_table (ksize opts_k3) right_CCC"
    using short_hyps(6,7) by (simp_all add: opts_k3_def)
  note a = malformed_row_ends_stream [of "fresh short_b" "''A'' @ [NL]" "''TTT 2'' @ [NL]" 3
      "CHR ''x''" short_g short_b right_CCC False env_short "[''-k'', ''3'', ''left'', ''right'']"
      opts_k3 "''left''" "''right''" "short_g @ short_b" right_CCC]
  note b = malformed_row_ends_stream [of "fresh bad_b" "''AxA 3'' @ [NL]" "''TTT 2'' @ [NL]" 3
      "CHR ''x''" short_g short_b right_CCC False env_short "[''-k'', ''3'', ''left'', ''right'']"
      opts_k3 "''left''" "''right''" "short_g @ short_b" right_CCC]
  from a short_hyps(1) n(1) have 1: "next_kmer_and_line 3 (fresh short_b)
       = Some (False, (fresh short_b)\<lparr>line := cstr (''A'' @ [NL]), mat := ''TTT 2'' @ [NL]\<rparr>, [])"
    by blast
  from b short_hyps(2,3) n(2) u
  have 2: "map_option (\<lambda>(h, m', e). (h, e)) (next_kmer_and_line 3 (fresh bad_b)) = Some (False, warning)"
    by blast
  from a short_hyps(4,5,6,8)
  have "(\<exists>v v'. km_diff False 3 (short_g @ short_b) right_CCC = Some v
            \<and> km_diff False 3 short_g right_CCC = Some v' \<and> outfile v = outfile v')"
    and "(\<exists>v v'. km_diff False 3 right_CCC (short_g @ short_b) = Some v
            \<and> km_diff False 3 right_CCC short_g = Some v' \<and> outfile v = outfile v')"
    by blast+
  then have 3: "map_option outfile (km_diff False 3 (short_g @ short_b) right_CCC)
       = map_option outfile (km_diff False 3 short_g right_CCC)"
    and 4: "map_option outfile (km_diff False 3 right_CCC (short_g @ short_b))
       = map_option outfile (km_diff False 3 right_CCC short_g)"
    by auto
  from a short_hyps(9,10,11) o
  have "\<exists>r. main env_short [''-k'', ''3'', ''left'', ''right''] = Some r \<and> ending r = Returned 0"
    by blast
  then have 5: "map_option ending (main env_short [''-k'', ''3'', ''left'', ''right'']) = Some (Returned 0)"
    by auto
  from 1 2 3 4 5 6 short_hyps nl_hyps(1,2) nn u n show ?thesis by simp
qed

end
